theory Spec2Isabelle
  imports Main "HOL-Library.Word" "HOL-Library.Multiset"
begin

section \<open>Machine types and constants\<close>

text \<open>
  \<open>size_t\<close> and \<open>void *\<close> are 64-bit words: \<open>+\<close>, \<open>-\<close> and \<open>*\<close> wrap around
  modulo \<open>2 ^ 64\<close>, \<open>div\<close>, \<open><\<close> and \<open>\<le>\<close> are unsigned. The null pointer is \<open>0\<close>.
\<close>

type_synonym size_t = "64 word"

type_synonym addr = "64 word"

text \<open>
  Modelled from the spec: the header \<open>common.h\<close> of the library, which declares
  \<open>kHugepageSize\<close>, is missing. The spec gives the hugepage size \<open>H = 2 MiB\<close>.
\<close>

definition kHugepageSize :: size_t where
  "kHugepageSize = 2097152"

text \<open>
  Modelled from the spec: \<open>kPageSize\<close> is declared in the missing \<open>common.h\<close> too.
  The spec gives the page size \<open>P = 4 KiB\<close>; \<open>free_page\<close> writes the same number as
  \<open>KB(4)\<close>.
\<close>

definition kPageSize :: size_t where
  "kPageSize = 4096"

text \<open>
  Modelled from the spec: the template \<open>round_up\<close> of the missing \<open>common.h\<close>. The
  spec's \<open>round_up_to(n, H)\<close> is the least multiple of \<open>H\<close> that is at least \<open>n\<close>; here
  it is computed in \<open>size_t\<close> arithmetic, so it wraps around for \<open>n\<close> above
  \<open>2 ^ 64 - H\<close>.
\<close>

definition round_up :: "size_t \<Rightarrow> size_t" where
  "round_up x = ((x + (kHugepageSize - 1)) div kHugepageSize) * kHugepageSize"

text \<open>\<open>kMaxAllocSize\<close> is 256 GiB, as the class declares it.\<close>

definition kMaxAllocSize :: size_t where
  "kMaxAllocSize = 256 * 1024 * 1024 * 1024"

section \<open>Outcomes of a call\<close>

text \<open>
  A call returns, fails (a failed \<open>assert\<close>, a \<open>std::runtime_error\<close> thrown to
  the caller, \<open>exit(-1)\<close>), or never returns.
\<close>

datatype failure =
    Assert_failed
  | Runtime_error_EACCES
  | Runtime_error_EINVAL size_t
  | Runtime_error_unexpected
  | Exit_shmat
  | Exit_mbind
  | Exit_alloc_page

datatype 'a outcome = Returns 'a | Fatal failure | Diverges

fun and_then :: "'a outcome \<Rightarrow> ('a \<Rightarrow> 'b outcome) \<Rightarrow> 'b outcome" where
  "and_then (Returns x) f = f x"
| "and_then (Fatal e) f = Fatal e"
| "and_then Diverges f = Diverges"

section \<open>The kernel as seen by the allocator\<close>

text \<open>
  One attempt of the retry loop of \<open>reserve_hugepages\<close> draws a number from \<open>slow_rand\<close>
  and calls \<open>shmget\<close>. The kernel either creates the segment, and then \<open>shmat\<close> returns
  an address and \<open>mbind\<close> a status, or sets \<open>errno\<close>. A script lists the attempts of one
  call of \<open>reserve_hugepages\<close> in order; after the script the kernel answers \<open>EEXIST\<close>
  for ever, so a script without a final answer is a call that does not return.
\<close>

datatype shmget_reply =
    Shm_created addr int
  | EEXIST
  | EACCES
  | EINVAL
  | ENOMEM
  | Unexpected_errno

type_synonym script = "(64 word \<times> shmget_reply) list"

section \<open>Data\<close>

record shm_region_t =
  key :: int
  base_buf :: addr
  size_r :: size_t
  cur_buf :: addr
  free_hugepages :: size_t

record HugeAllocator =
  numa_node :: size_t
  shm_list :: "shm_region_t list"
  page_freelist :: "addr list"
  tot_free_hugepages :: size_t
  prev_allocation_size :: size_t
  tot_memory_reserved :: size_t
  tot_memory_allocated :: size_t

text \<open>The constructor of \<open>shm_region_t\<close>.\<close>

definition shm_region_t :: "int \<Rightarrow> addr \<Rightarrow> size_t \<Rightarrow> shm_region_t outcome" where
  "shm_region_t k buf sz =
     (if sz mod kHugepageSize \<noteq> 0 then Fatal Assert_failed
      else Returns \<lparr>key = k, base_buf = buf, size_r = sz, cur_buf = buf,
                    free_hugepages = sz div kHugepageSize\<rparr>)"

section \<open>Reserving hugepages\<close>

text \<open>
  The \<open>while (true)\<close> loop around \<open>shmget\<close>. It returns \<open>None\<close> where the source returns
  \<open>false\<close> (\<open>ENOMEM\<close>), and the key with the answers of \<open>shmat\<close> and \<open>mbind\<close> where it
  breaks out of the loop. The key is \<open>std::abs\<close> of the draw cast to \<open>int\<close>; for
  the one draw whose cast is \<open>INT_MIN\<close> C++ leaves \<open>std::abs\<close> undefined, and the model
  takes \<open>2 ^ 31\<close>. No property below depends on the keys.
\<close>

fun shmget_loop :: "script \<Rightarrow> size_t \<Rightarrow> (int \<times> addr \<times> int) option outcome" where
  "shmget_loop [] sz = Diverges"
| "shmget_loop ((rnd, reply) # rest) sz =
     (let shm_key = \<bar>sint (ucast rnd :: 32 word)\<bar> in
      case reply of
        EEXIST \<Rightarrow> shmget_loop rest sz
      | EACCES \<Rightarrow> Fatal Runtime_error_EACCES
      | EINVAL \<Rightarrow> Fatal (Runtime_error_EINVAL sz)
      | ENOMEM \<Rightarrow> Returns None
      | Unexpected_errno \<Rightarrow> Fatal Runtime_error_unexpected
      | Shm_created shm_buf ret \<Rightarrow> Returns (Some (shm_key, shm_buf, ret)))"

definition reserve_hugepages ::
  "script \<Rightarrow> size_t \<Rightarrow> size_t \<Rightarrow> HugeAllocator \<Rightarrow> (bool \<times> HugeAllocator) outcome" where
  "reserve_hugepages rs sz numa s =
     (let sz' = round_up sz in
      and_then (shmget_loop rs sz') (\<lambda>got.
        case got of
          None \<Rightarrow> Returns (False, s)
        | Some (shm_key, shm_buf, ret) \<Rightarrow>
            if shm_buf = 0 then Fatal Exit_shmat
            else if ret \<noteq> 0 then Fatal Exit_mbind
            else and_then (shm_region_t shm_key shm_buf sz') (\<lambda>r.
              Returns (True,
                s\<lparr>shm_list := shm_list s @ [r],
                  tot_free_hugepages := tot_free_hugepages s + sz' div kHugepageSize,
                  tot_memory_reserved := tot_memory_reserved s + sz'\<rparr>))))"

section \<open>Construction\<close>

text \<open>
  \<open>kMaxNumaNodes\<close> is declared in the missing header and the spec gives no value for it:
  it is the first parameter. The constructor drops the result of \<open>reserve_hugepages\<close>.
\<close>

definition HugeAllocator_ctor ::
  "size_t \<Rightarrow> script \<Rightarrow> size_t \<Rightarrow> size_t \<Rightarrow> HugeAllocator outcome" where
  "HugeAllocator_ctor kMaxNumaNodes rs initial_size numa =
     (if \<not> (initial_size > 0 \<and> initial_size \<le> kMaxAllocSize) then Fatal Assert_failed
      else if \<not> numa \<le> kMaxNumaNodes then Fatal Assert_failed
      else and_then
        (reserve_hugepages rs initial_size numa
           \<lparr>numa_node = numa, shm_list = [], page_freelist = [], tot_free_hugepages = 0,
            prev_allocation_size = initial_size, tot_memory_reserved = 0,
            tot_memory_allocated = 0\<rparr>)
        (\<lambda>(success, s). Returns s))"

section \<open>Pages\<close>

text \<open>\<open>pop_hugepages\<close> on the region at index \<open>i\<close> of \<open>shm_list\<close>.\<close>

definition pop_hugepages :: "nat \<Rightarrow> size_t \<Rightarrow> HugeAllocator \<Rightarrow> HugeAllocator outcome" where
  "pop_hugepages i num_hugepages s =
     (let r = shm_list s ! i in
      if \<not> free_hugepages r \<ge> num_hugepages then Fatal Assert_failed
      else Returns
        (s\<lparr>shm_list := (shm_list s)
              [i := r\<lparr>cur_buf := cur_buf r + num_hugepages * kHugepageSize,
                      free_hugepages := free_hugepages r - num_hugepages\<rparr>],
           tot_free_hugepages := tot_free_hugepages s - num_hugepages\<rparr>))"

text \<open>
  The loop \<open>for (i = 0; i < kHugepageSize; i += kPageSize)\<close> that pushes the pages of one
  hugepage; \<open>push_back\<close> appends at the end of the list.
\<close>

function push_pages :: "size_t \<Rightarrow> addr \<Rightarrow> addr list \<Rightarrow> addr list" where
  "push_pages i cur fl =
     (if i < kHugepageSize then push_pages (i + kPageSize) cur (fl @ [cur + i]) else fl)"
  by pat_completeness auto

termination
proof (relation "measure (\<lambda>(i, cur, fl). 2097152 + 4096 - unat i)")
  show "wf (measure (\<lambda>(i :: size_t, cur :: addr, fl :: addr list). 2097152 + 4096 - unat i))"
    by simp
next
  fix i :: size_t and cur :: addr and fl :: "addr list"
  assume "i < kHugepageSize"
  then have lt: "unat i < 2097152"
    by (simp add: kHugepageSize_def word_less_nat_alt)
  then have "unat (i + kPageSize) = unat i + 4096"
    by (simp add: kPageSize_def unat_word_ariths)
  with lt show "((i + kPageSize, cur, fl @ [cur + i]), (i, cur, fl))
      \<in> measure (\<lambda>(i, cur, fl). 2097152 + 4096 - unat i)"
    by simp
qed

declare push_pages.simps [simp del]

text \<open>
  The scan of \<open>alloc_page\<close> over \<open>shm_list\<close>, from the region at index \<open>i\<close> on: the first
  region with a free hugepage is carved. Falling out of the loop reaches \<open>exit(-1)\<close>.
\<close>

fun carve_scan ::
  "shm_region_t list \<Rightarrow> nat \<Rightarrow> HugeAllocator \<Rightarrow> (addr \<times> HugeAllocator) outcome" where
  "carve_scan [] i s = Fatal Exit_alloc_page"
| "carve_scan (r # rest) i s =
     (if free_hugepages r > 0 then
        and_then
          (pop_hugepages i 1
             (s\<lparr>page_freelist := push_pages 0 (cur_buf r) (page_freelist s)\<rparr>))
          (\<lambda>s2.
             if \<not> length (page_freelist s2) > 0 then Fatal Assert_failed
             else Returns (last (page_freelist s2),
               s2\<lparr>page_freelist := butlast (page_freelist s2),
                  tot_memory_allocated := tot_memory_allocated s2 + kPageSize\<rparr>))
      else carve_scan rest (Suc i) s)"

definition alloc_page :: "script \<Rightarrow> HugeAllocator \<Rightarrow> (addr \<times> HugeAllocator) outcome" where
  "alloc_page rs s =
     (if length (page_freelist s) \<noteq> 0 then
        Returns (last (page_freelist s),
          s\<lparr>page_freelist := butlast (page_freelist s),
            tot_memory_allocated := tot_memory_allocated s + kPageSize\<rparr>)
      else if tot_free_hugepages s = 0 then
        (let s1 = s\<lparr>prev_allocation_size := prev_allocation_size s * 2\<rparr> in
         and_then (reserve_hugepages rs (prev_allocation_size s1) (numa_node s1) s1)
           (\<lambda>(success, s2).
              if \<not> success then Returns (0, s2)
              else carve_scan (shm_list s2) 0 s2))
      else carve_scan (shm_list s) 0 s)"

definition free_page :: "addr \<Rightarrow> HugeAllocator \<Rightarrow> HugeAllocator outcome" where
  "free_page page s =
     (if page mod 4096 \<noteq> 0 then Fatal Assert_failed
      else Returns
        (s\<lparr>page_freelist := page_freelist s @ [page],
           tot_memory_allocated := tot_memory_allocated s - kPageSize\<rparr>))"

section \<open>Huge buffers\<close>

text \<open>
  The first-fit loop of \<open>alloc_huge\<close>: \<open>Some\<close> where the source returns from inside the
  loop, \<open>None\<close> where it falls through.
\<close>

fun huge_scan ::
  "shm_region_t list \<Rightarrow> nat \<Rightarrow> size_t \<Rightarrow> size_t \<Rightarrow> HugeAllocator
     \<Rightarrow> (addr \<times> HugeAllocator) outcome option" where
  "huge_scan [] i reqd_hugepages sz s = None"
| "huge_scan (r # rest) i reqd_hugepages sz s =
     (if free_hugepages r \<ge> reqd_hugepages then
        Some (and_then (pop_hugepages i reqd_hugepages s) (\<lambda>s2.
          Returns (cur_buf r,
            s2\<lparr>tot_memory_allocated := tot_memory_allocated s2 + sz\<rparr>)))
      else huge_scan rest (Suc i) reqd_hugepages sz s)"

text \<open>
  The loop \<open>while (prev_allocation_size < size) prev_allocation_size *= 2\<close>. It does not
  end when the doubled value wraps around to \<open>0\<close>: then the result is \<open>None\<close>.
\<close>

partial_function (option) double_while :: "size_t \<Rightarrow> size_t \<Rightarrow> size_t option" where
  "double_while p sz = (if p < sz then double_while (p * 2) sz else Some p)"

definition alloc_huge ::
  "script \<Rightarrow> size_t \<Rightarrow> HugeAllocator \<Rightarrow> (addr \<times> HugeAllocator) outcome" where
  "alloc_huge rs size0 s =
     (if \<not> (size0 \<ge> kHugepageSize \<and> size0 \<le> kMaxAllocSize) then Fatal Assert_failed
      else
        let sz = round_up size0; reqd_hugepages = sz div kHugepageSize in
        case huge_scan (shm_list s) 0 reqd_hugepages sz s of
          Some out \<Rightarrow> out
        | None \<Rightarrow>
            (case double_while (prev_allocation_size s * 2) sz of
               None \<Rightarrow> Diverges
             | Some p \<Rightarrow>
                 let s1 = s\<lparr>prev_allocation_size := p\<rparr> in
                 and_then (reserve_hugepages rs (prev_allocation_size s1) (numa_node s1) s1)
                   (\<lambda>(success, s2).
                      if \<not> success then Returns (0, s2)
                      else
                        let i = length (shm_list s2) - 1;
                            hugebuf_addr = cur_buf (shm_list s2 ! i)
                        in and_then (pop_hugepages i reqd_hugepages s2) (\<lambda>s3.
                             Returns (hugebuf_addr,
                               s3\<lparr>tot_memory_allocated :=
                                     tot_memory_allocated s3 + sz\<rparr>)))))"

section \<open>Introspection\<close>

definition get_reserved_memory :: "HugeAllocator \<Rightarrow> size_t outcome" where
  "get_reserved_memory s =
     (if tot_memory_reserved s mod kHugepageSize \<noteq> 0 then Fatal Assert_failed
      else Returns (tot_memory_reserved s))"

definition get_allocated_memory :: "HugeAllocator \<Rightarrow> size_t outcome" where
  "get_allocated_memory s =
     (if tot_memory_allocated s mod kPageSize \<noteq> 0 then Fatal Assert_failed
      else Returns (tot_memory_allocated s))"

definition get_numa_node :: "HugeAllocator \<Rightarrow> size_t" where
  "get_numa_node s = numa_node s"

text \<open>
  The destructor and \<open>delete_shm\<close> give the segments back to the kernel when the
  allocator goes away; the model stops before that.
\<close>

section \<open>Sequences of public operations\<close>

text \<open>
  A caller issues \<open>alloc_page\<close>, \<open>free_page\<close> and \<open>alloc_huge\<close>. Each allocation comes
  with the script of the kernel's answers, used when the call reserves hugepages.
\<close>

datatype call = Alloc_page script | Free_page addr | Alloc_huge script size_t

text \<open>
  The caller's ledger: the pages it holds, and the huge buffers it was given with their
  byte length \<open>round_up size\<close>. A null return adds nothing; \<open>free_page\<close> gives one
  page back.
\<close>

record client =
  live_pages :: "addr list"
  huge_bufs :: "(addr \<times> size_t) list"

definition new_client :: client where
  "new_client = \<lparr>live_pages = [], huge_bufs = []\<rparr>"

fun step :: "call \<Rightarrow> HugeAllocator \<times> client \<Rightarrow> (HugeAllocator \<times> client) outcome" where
  "step (Alloc_page rs) (s, c) =
     and_then (alloc_page rs s) (\<lambda>(a, s').
       Returns (s', if a = 0 then c else c\<lparr>live_pages := a # live_pages c\<rparr>))"
| "step (Free_page a) (s, c) =
     and_then (free_page a s) (\<lambda>s'.
       Returns (s', c\<lparr>live_pages := remove1 a (live_pages c)\<rparr>))"
| "step (Alloc_huge rs sz) (s, c) =
     and_then (alloc_huge rs sz s) (\<lambda>(a, s').
       Returns (s', if a = 0 then c else c\<lparr>huge_bufs := (a, round_up sz) # huge_bufs c\<rparr>))"

fun run :: "call list \<Rightarrow> HugeAllocator \<times> client \<Rightarrow> (HugeAllocator \<times> client) outcome" where
  "run [] \<sigma> = Returns \<sigma>"
| "run (c # cs) \<sigma> = and_then (step c \<sigma>) (run cs)"

text \<open>The caller frees only pages it holds, so each page at most once.\<close>

fun permitted :: "call \<Rightarrow> client \<Rightarrow> bool" where
  "permitted (Free_page a) c = (a \<in> set (live_pages c))"
| "permitted (Alloc_page rs) c = True"
| "permitted (Alloc_huge rs sz) c = True"

fun disciplined :: "call list \<Rightarrow> HugeAllocator \<times> client \<Rightarrow> bool" where
  "disciplined [] \<sigma> = True"
| "disciplined (c # cs) \<sigma> =
     (permitted c (snd \<sigma>) \<and>
      (case step c \<sigma> of Returns \<sigma>' \<Rightarrow> disciplined cs \<sigma>' | Fatal e \<Rightarrow> True | Diverges \<Rightarrow> True))"

text \<open>A caller that never passes the null address to \<open>free_page\<close>.\<close>

definition never_frees_null :: "call list \<Rightarrow> bool" where
  "never_frees_null cs = list_all (\<lambda>c. c \<noteq> Free_page 0) cs"

section \<open>Address ranges\<close>

text \<open>
  A range is a start address and a byte length, as natural numbers. Two ranges are apart
  when they share no address.
\<close>

type_synonym range = "nat \<times> nat"

definition apart :: "range \<Rightarrow> range \<Rightarrow> bool" where
  "apart x y \<longleftrightarrow>
     snd x = 0 \<or> snd y = 0 \<or> fst x + snd x \<le> fst y \<or> fst y + snd y \<le> fst x"

definition page_range :: "addr \<Rightarrow> range" where
  "page_range a = (unat a, 4096)"

definition huge_range :: "addr \<times> size_t \<Rightarrow> range" where
  "huge_range b = (unat (fst b), unat (snd b))"

definition region_range :: "shm_region_t \<Rightarrow> range" where
  "region_range r = (unat (base_buf r), unat (size_r r))"

definition live_ranges :: "client \<Rightarrow> range list" where
  "live_ranges c = map page_range (live_pages c) @ map huge_range (huge_bufs c)"

text \<open>
  What the kernel is taken to guarantee about the segments it maps: each lies below the
  top of the address space, and no two overlap.
\<close>

definition mappings_fit :: "shm_region_t list \<Rightarrow> bool" where
  "mappings_fit rs = list_all (\<lambda>x. fst x + snd x < 2 ^ 64) (map region_range rs)"

definition mappings_disjoint :: "shm_region_t list \<Rightarrow> bool" where
  "mappings_disjoint rs = sorted_wrt apart (map region_range rs)"

text \<open>The answer that ends the retry loop of \<open>reserve_hugepages\<close>.\<close>

definition kernel_answer :: "script \<Rightarrow> shmget_reply option" where
  "kernel_answer rs =
     (case dropWhile (\<lambda>x. snd x = EEXIST) rs of [] \<Rightarrow> None | x # rest \<Rightarrow> Some (snd x))"

definition creates_segment :: "script \<Rightarrow> bool" where
  "creates_segment rs =
     (case kernel_answer rs of Some (Shm_created buf ret) \<Rightarrow> True | _ \<Rightarrow> False)"

section \<open>The growth rule in the words of the specification\<close>

text \<open>
  The request is the last reservation doubled, and doubled again until it is at least
  \<open>need\<close>: \<open>prev * 2 ^ (j + 1)\<close> for the least such \<open>j\<close>. After 64 doublings the value is
  \<open>0\<close> for good, so \<open>j\<close> is searched below 64.
\<close>

definition grown_request :: "size_t \<Rightarrow> size_t \<Rightarrow> size_t option" where
  "grown_request prev need =
     map_option (\<lambda>j. prev * 2 ^ Suc j) (find (\<lambda>j. need \<le> prev * 2 ^ Suc j) [0..<64])"

section \<open>State changes by name\<close>

text \<open>
  The region that a successful \<open>reserve_hugepages\<close> builds and how it registers it,
  the effect of \<open>pop_hugepages\<close> on a region and on the allocator, and the address of
  the \<open>j\<close>-th page of the hugepage at \<open>cur\<close>.
\<close>

definition fresh_region :: "int \<Rightarrow> addr \<Rightarrow> size_t \<Rightarrow> shm_region_t" where
  "fresh_region k buf sz =
     \<lparr>key = k, base_buf = buf, size_r = round_up sz, cur_buf = buf,
      free_hugepages = round_up sz div kHugepageSize\<rparr>"

definition with_region :: "shm_region_t \<Rightarrow> HugeAllocator \<Rightarrow> HugeAllocator" where
  "with_region r s =
     s\<lparr>shm_list := shm_list s @ [r],
       tot_free_hugepages := tot_free_hugepages s + free_hugepages r,
       tot_memory_reserved := tot_memory_reserved s + size_r r\<rparr>"

definition popped :: "size_t \<Rightarrow> shm_region_t \<Rightarrow> shm_region_t" where
  "popped n r =
     r\<lparr>cur_buf := cur_buf r + n * kHugepageSize, free_hugepages := free_hugepages r - n\<rparr>"

definition pop_at :: "nat \<Rightarrow> size_t \<Rightarrow> HugeAllocator \<Rightarrow> HugeAllocator" where
  "pop_at i n s =
     s\<lparr>shm_list := (shm_list s)[i := popped n (shm_list s ! i)],
       tot_free_hugepages := tot_free_hugepages s - n\<rparr>"

definition page_at :: "addr \<Rightarrow> nat \<Rightarrow> addr" where
  "page_at cur j = cur + of_nat j * kPageSize"

definition carve :: "nat \<Rightarrow> HugeAllocator \<Rightarrow> HugeAllocator" where
  "carve j s =
     (pop_at j 1 s)
       \<lparr>page_freelist :=
          page_freelist s @ map (page_at (cur_buf (shm_list s ! j))) [0..<511],
        tot_memory_allocated := tot_memory_allocated s + kPageSize\<rparr>"

definition bump :: "nat \<Rightarrow> size_t \<Rightarrow> HugeAllocator \<Rightarrow> HugeAllocator" where
  "bump j n s =
     (pop_at j n s)
       \<lparr>tot_memory_allocated := tot_memory_allocated s + n * kHugepageSize\<rparr>"

text \<open>The region that a scan from the front stops at.\<close>

definition first_free :: "nat \<Rightarrow> HugeAllocator \<Rightarrow> bool" where
  "first_free j s \<longleftrightarrow>
     j < length (shm_list s) \<and> free_hugepages (shm_list s ! j) \<noteq> 0 \<and>
     (\<forall>k < j. free_hugepages (shm_list s ! k) = 0)"

definition first_fit :: "nat \<Rightarrow> size_t \<Rightarrow> HugeAllocator \<Rightarrow> bool" where
  "first_fit j n s \<longleftrightarrow>
     j < length (shm_list s) \<and> n \<le> free_hugepages (shm_list s ! j) \<and>
     (\<forall>k < j. \<not> n \<le> free_hugepages (shm_list s ! k))"

definition no_fit :: "size_t \<Rightarrow> HugeAllocator \<Rightarrow> bool" where
  "no_fit n s \<longleftrightarrow> list_all (\<lambda>r. \<not> n \<le> free_hugepages r) (shm_list s)"

section \<open>A sample session\<close>

text \<open>
  An allocator built with 2 MiB on node 0, to which the kernel maps one hugepage at
  \<open>0x40000000\<close>. The caller takes two pages and frees the first; then it asks for
  3 MiB, for which the kernel maps 4 MiB at \<open>0x80000000\<close> after one key collision,
  and for 2 MiB more when the kernel is out of hugepages.
\<close>

definition sample_start :: HugeAllocator where
  "sample_start =
     \<lparr>numa_node = 0,
      shm_list = [\<lparr>key = 5, base_buf = 0x40000000, size_r = 2097152,
                   cur_buf = 0x40000000, free_hugepages = 1\<rparr>],
      page_freelist = [], tot_free_hugepages = 1, prev_allocation_size = 2097152,
      tot_memory_reserved = 2097152, tot_memory_allocated = 0\<rparr>"

definition sample_pages :: "call list" where
  "sample_pages = [Alloc_page [], Alloc_page [], Free_page 0x401FF000]"

definition sample_mid :: HugeAllocator where
  "sample_mid =
     \<lparr>numa_node = 0,
      shm_list = [\<lparr>key = 5, base_buf = 0x40000000, size_r = 2097152,
                   cur_buf = 0x40200000, free_hugepages = 0\<rparr>],
      page_freelist = map (\<lambda>k. 0x40000000 + of_nat k * 4096) [0..<510] @ [0x401FF000],
      tot_free_hugepages = 0, prev_allocation_size = 2097152,
      tot_memory_reserved = 2097152, tot_memory_allocated = 4096\<rparr>"

definition sample_mid_client :: client where
  "sample_mid_client = \<lparr>live_pages = [0x401FE000], huge_bufs = []\<rparr>"

definition sample_huge :: "call list" where
  "sample_huge =
     [Alloc_huge [(9, EEXIST), (7, Shm_created 0x80000000 0)] 3145728,
      Alloc_huge [(11, ENOMEM)] 2097152]"

definition sample_end :: HugeAllocator where
  "sample_end =
     \<lparr>numa_node = 0,
      shm_list = [\<lparr>key = 5, base_buf = 0x40000000, size_r = 2097152,
                   cur_buf = 0x40200000, free_hugepages = 0\<rparr>,
                  \<lparr>key = 7, base_buf = 0x80000000, size_r = 4194304,
                   cur_buf = 0x80400000, free_hugepages = 0\<rparr>],
      page_freelist = map (\<lambda>k. 0x40000000 + of_nat k * 4096) [0..<510] @ [0x401FF000],
      tot_free_hugepages = 0, prev_allocation_size = 8388608,
      tot_memory_reserved = 6291456, tot_memory_allocated = 4198400\<rparr>"

definition sample_end_client :: client where
  "sample_end_client =
     \<lparr>live_pages = [0x401FE000], huge_bufs = [(0x80000000, 4194304)]\<rparr>"

text \<open>The same allocator once 510 of the 512 pages of its hugepage are held.\<close>

definition sample_busy :: HugeAllocator where
  "sample_busy =
     \<lparr>numa_node = 0,
      shm_list = [\<lparr>key = 5, base_buf = 0x40000000, size_r = 2097152,
                   cur_buf = 0x40200000, free_hugepages = 0\<rparr>],
      page_freelist = [0x40000000, 0x40001000], tot_free_hugepages = 0,
      prev_allocation_size = 2097152, tot_memory_reserved = 2097152,
      tot_memory_allocated = 2088960\<rparr>"

text \<open>The allocator of the sample when its only hugepage went to one huge buffer.\<close>

definition sample_full :: HugeAllocator where
  "sample_full =
     \<lparr>numa_node = 0,
      shm_list = [\<lparr>key = 5, base_buf = 0x40000000, size_r = 2097152,
                   cur_buf = 0x40200000, free_hugepages = 0\<rparr>],
      page_freelist = [], tot_free_hugepages = 0, prev_allocation_size = 2097152,
      tot_memory_reserved = 2097152, tot_memory_allocated = 2097152\<rparr>"

definition sample_full_client :: client where
  "sample_full_client = \<lparr>live_pages = [], huge_bufs = [(0x40000000, 2097152)]\<rparr>"

text \<open>
  An allocator built with 2.75 MiB, to which the kernel maps 4 MiB at \<open>0x40000000\<close>,
  before and after \<open>alloc_huge\<close> of 5452595 bytes (5.2 MiB), for which the kernel maps
  12 MiB at \<open>0x80000000\<close>.
\<close>

definition uneven_start :: HugeAllocator where
  "uneven_start =
     \<lparr>numa_node = 0,
      shm_list = [\<lparr>key = 5, base_buf = 0x40000000, size_r = 4194304,
                   cur_buf = 0x40000000, free_hugepages = 2\<rparr>],
      page_freelist = [], tot_free_hugepages = 2, prev_allocation_size = 2883584,
      tot_memory_reserved = 4194304, tot_memory_allocated = 0\<rparr>"

definition uneven_end :: HugeAllocator where
  "uneven_end =
     \<lparr>numa_node = 0,
      shm_list = [\<lparr>key = 5, base_buf = 0x40000000, size_r = 4194304,
                   cur_buf = 0x40000000, free_hugepages = 2\<rparr>,
                  \<lparr>key = 7, base_buf = 0x80000000, size_r = 12582912,
                   cur_buf = 0x80600000, free_hugepages = 3\<rparr>],
      page_freelist = [], tot_free_hugepages = 5, prev_allocation_size = 11534336,
      tot_memory_reserved = 16777216, tot_memory_allocated = 6291456\<rparr>"

section \<open>Invariants\<close>

text \<open>
  How the registry changes over time: regions are added at the end, and a region keeps
  its key, base and size while its count of free hugepages goes down.
\<close>

definition region_grows :: "shm_region_t \<Rightarrow> shm_region_t \<Rightarrow> bool" where
  "region_grows r r' \<longleftrightarrow>
     key r' = key r \<and> base_buf r' = base_buf r \<and> size_r r' = size_r r \<and>
     free_hugepages r' \<le> free_hugepages r"

definition regions_extend :: "shm_region_t list \<Rightarrow> shm_region_t list \<Rightarrow> bool" where
  "regions_extend regs regs' \<longleftrightarrow>
     length regs \<le> length regs' \<and>
     (\<forall>i < length regs. region_grows (regs ! i) (regs' ! i))"

definition carved :: "shm_region_t \<Rightarrow> nat" where
  "carved r = unat (size_r r) - unat (free_hugepages r) * 2097152"

definition region_ok :: "shm_region_t \<Rightarrow> bool" where
  "region_ok r \<longleftrightarrow>
     base_buf r \<noteq> 0 \<and>
     unat (size_r r) mod 2097152 = 0 \<and>
     unat (free_hugepages r) * 2097152 \<le> unat (size_r r) \<and>
     cur_buf r = base_buf r + (size_r r - free_hugepages r * kHugepageSize)"

definition request_shape :: "size_t \<Rightarrow> bool" where
  "request_shape p \<longleftrightarrow> (\<exists>n k. n \<le> 2 ^ 38 \<and> unat p = n * 2 ^ k mod 2 ^ 64)"

definition allocator_inv :: "HugeAllocator \<Rightarrow> bool" where
  "allocator_inv s \<longleftrightarrow>
     (\<forall>r \<in> set (shm_list s). region_ok r) \<and>
     tot_free_hugepages s = sum_list (map free_hugepages (shm_list s)) \<and>
     tot_memory_reserved s = sum_list (map size_r (shm_list s)) \<and>
     unat (tot_memory_allocated s) mod 4096 = 0 \<and>
     request_shape (prev_allocation_size s)"

definition inside :: "range \<Rightarrow> shm_region_t \<Rightarrow> bool" where
  "inside b r \<longleftrightarrow>
     unat (base_buf r) \<le> fst b \<and> fst b + snd b \<le> unat (base_buf r) + carved r"

text \<open>
  A range is housed when it is not empty and lies in the part of some region that has
  been handed out; it is in the free part of a region when it lies between the cursor
  and the end.
\<close>

definition housed :: "shm_region_t list \<Rightarrow> range \<Rightarrow> bool" where
  "housed regs b \<longleftrightarrow> 0 < snd b \<and> (\<exists>r \<in> set regs. inside b r)"

definition in_free_part :: "range \<Rightarrow> shm_region_t \<Rightarrow> bool" where
  "in_free_part b r \<longleftrightarrow>
     unat (base_buf r) + carved r \<le> fst b \<and>
     fst b + snd b \<le> unat (base_buf r) + unat (size_r r)"

definition ranges :: "HugeAllocator \<times> client \<Rightarrow> range list" where
  "ranges \<sigma> = map page_range (page_freelist (fst \<sigma>)) @ live_ranges (snd \<sigma>)"

definition ledger_inv :: "HugeAllocator \<times> client \<Rightarrow> bool" where
  "ledger_inv \<sigma> \<longleftrightarrow>
     tot_memory_allocated (fst \<sigma>)
       = kPageSize * of_nat (length (live_pages (snd \<sigma>)))
         + sum_list (map snd (huge_bufs (snd \<sigma>))) \<and>
     (\<forall>b \<in> set (ranges \<sigma>). housed (shm_list (fst \<sigma>)) b)"

section \<open>Rounding and the page loop\<close>

lemma unat_kHugepageSize: "unat kHugepageSize = 2097152"
  by (simp add: kHugepageSize_def)

lemma unat_kPageSize: "unat kPageSize = 4096"
  by (simp add: kPageSize_def)

lemma unat_round_up:
  "unat (round_up x) = ((unat x + 2097151) mod 2 ^ 64 div 2097152) * 2097152"
proof -
  have a: "unat (x + (kHugepageSize - 1)) = (unat x + 2097151) mod 2 ^ 64"
    by (simp add: kHugepageSize_def unat_word_ariths)
  have b: "unat ((x + (kHugepageSize - 1)) div kHugepageSize)
      = (unat x + 2097151) mod 2 ^ 64 div 2097152"
    by (simp add: unat_div a unat_kHugepageSize)
  have c: "(unat x + 2097151) mod 2 ^ 64 div 2097152 * 2097152 < 2 ^ 64"
  proof -
    have "(unat x + 2097151) mod 2 ^ 64 div 2097152 * 2097152 \<le> (unat x + 2097151) mod 2 ^ 64"
      by simp
    also have "\<dots> < 2 ^ 64" by simp
    finally show ?thesis .
  qed
  have "unat (round_up x)
      = unat ((x + (kHugepageSize - 1)) div kHugepageSize) * unat kHugepageSize mod 2 ^ 64"
    unfolding round_up_def by (simp add: unat_word_ariths)
  also have "\<dots> = (unat x + 2097151) mod 2 ^ 64 div 2097152 * 2097152 mod 2 ^ 64"
    by (simp only: b unat_kHugepageSize)
  also have "\<dots> = (unat x + 2097151) mod 2 ^ 64 div 2097152 * 2097152"
    using c by (rule mod_less)
  finally show ?thesis .
qed

lemma round_up_nat_bounds:
  fixes n d :: nat
  assumes "0 < d"
  shows "n \<le> (n + (d - 1)) div d * d" and "(n + (d - 1)) div d * d < n + d"
proof -
  have e: "(n + (d - 1)) div d * d = (n + (d - 1)) - (n + (d - 1)) mod d"
    by (simp add: minus_mod_eq_div_mult)
  have "(n + (d - 1)) mod d < d"
    using assms by (rule mod_less_divisor)
  then have m: "(n + (d - 1)) mod d \<le> d - 1"
    by linarith
  have m': "(n + (d - 1)) mod d \<le> n + (d - 1)"
    by simp
  show "n \<le> (n + (d - 1)) div d * d" unfolding e using m m' by linarith
  show "(n + (d - 1)) div d * d < n + d" unfolding e using assms by linarith
qed

lemma round_up_mod: "round_up x mod kHugepageSize = 0"
proof -
  have "unat (round_up x mod kHugepageSize) = 0"
    by (simp add: unat_mod unat_round_up unat_kHugepageSize)
  then show ?thesis by (simp add: unat_eq_0)
qed

lemma unat_round_up_div:
  "unat (round_up x div kHugepageSize) * 2097152 = unat (round_up x)"
  by (simp add: unat_div unat_round_up unat_kHugepageSize)

lemma unat_round_up_ge:
  assumes "unat x + 2097151 < 2 ^ 64"
  shows "unat x \<le> unat (round_up x)" "unat (round_up x) < unat x + 2097152"
proof -
  have e: "unat (round_up x) = (unat x + 2097151) div 2097152 * 2097152"
    using assms by (simp add: unat_round_up)
  show "unat x \<le> unat (round_up x)"
    unfolding e using round_up_nat_bounds(1) [of 2097152 "unat x"] by simp
  show "unat (round_up x) < unat x + 2097152"
    unfolding e using round_up_nat_bounds(2) [of 2097152 "unat x"] by simp
qed

lemma push_pages_from:
  "k \<le> 512 \<Longrightarrow> push_pages (of_nat k * kPageSize) cur fl
     = fl @ map (\<lambda>j. cur + of_nat j * kPageSize) [k..<512]"
proof (induction "512 - k" arbitrary: k fl)
  case 0
  then have k: "k = 512" by simp
  show ?case
    by (subst push_pages.simps) (simp add: k kPageSize_def kHugepageSize_def)
next
  case (Suc n)
  then have lt: "k < 512" and n: "n = 512 - Suc k" by simp_all
  have u: "unat (of_nat k * kPageSize :: size_t) = k * 4096"
    using lt by (simp add: unat_word_ariths kPageSize_def unat_of_nat)
  have less: "(of_nat k * kPageSize :: size_t) < kHugepageSize"
    using lt by (simp add: word_less_nat_alt u unat_kHugepageSize)
  have nxt: "of_nat k * kPageSize + kPageSize = (of_nat (Suc k) * kPageSize :: size_t)"
    by (simp add: algebra_simps)
  have "push_pages (of_nat k * kPageSize) cur fl
      = push_pages (of_nat (Suc k) * kPageSize) cur (fl @ [cur + of_nat k * kPageSize])"
    by (subst push_pages.simps) (simp add: less nxt)
  also have "\<dots> = (fl @ [cur + of_nat k * kPageSize])
      @ map (\<lambda>j. cur + of_nat j * kPageSize) [Suc k..<512]"
    using Suc.hyps(1) [OF n] lt by simp
  also have "\<dots> = fl @ map (\<lambda>j. cur + of_nat j * kPageSize) [k..<512]"
    using lt by (simp add: upt_conv_Cons)
  finally show ?case .
qed

lemma push_pages_eq:
  "push_pages 0 cur fl = fl @ map (\<lambda>j. cur + of_nat j * kPageSize) [0..<512]"
  using push_pages_from [of 0 cur fl] by simp

section \<open>Reserving: what a returning call has done\<close>

lemma shmget_loop_None:
  "shmget_loop rs sz = Returns None \<longleftrightarrow> kernel_answer rs = Some ENOMEM"
proof (induction rs)
  case Nil
  show ?case by (simp add: kernel_answer_def)
next
  case (Cons x rs)
  obtain rnd reply where x: "x = (rnd, reply)" by (cases x)
  show ?case
    using Cons.IH by (cases reply) (simp_all add: x kernel_answer_def)
qed

lemma shmget_loop_Some:
  "shmget_loop rs sz = Returns (Some (k, buf, ret))
     \<Longrightarrow> kernel_answer rs = Some (Shm_created buf ret)"
proof (induction rs)
  case Nil
  then show ?case by simp
next
  case (Cons x rs)
  obtain rnd reply where x: "x = (rnd, reply)" by (cases x)
  show ?case
    using Cons by (cases reply) (simp_all add: x kernel_answer_def)
qed

lemma kernel_answer_created:
  "kernel_answer rs = Some (Shm_created buf ret)
     \<Longrightarrow> \<exists>k. shmget_loop rs sz = Returns (Some (k, buf, ret))"
proof (induction rs)
  case Nil
  then show ?case by (simp add: kernel_answer_def)
next
  case (Cons x rs)
  obtain rnd reply where x: "x = (rnd, reply)" by (cases x)
  show ?case
    using Cons by (cases reply) (simp_all add: x kernel_answer_def)
qed

lemma reserve_hugepages_False:
  "reserve_hugepages rs sz numa s = Returns (False, s')
     \<longleftrightarrow> kernel_answer rs = Some ENOMEM \<and> s' = s"
proof (cases "shmget_loop rs (round_up sz)")
  case (Returns got)
  show ?thesis
  proof (cases got)
    case None
    with Returns show ?thesis
      using shmget_loop_None [of rs "round_up sz"]
      by (auto simp: reserve_hugepages_def)
  next
    case (Some t)
    obtain k buf ret where t: "t = (k, buf, ret)" by (cases t)
    have "kernel_answer rs = Some (Shm_created buf ret)"
      using Returns Some t shmget_loop_Some by simp
    then show ?thesis
      using Returns Some t
      by (simp add: reserve_hugepages_def shm_region_t_def round_up_mod Let_def)
  qed
next
  case (Fatal e)
  then have "kernel_answer rs \<noteq> Some ENOMEM"
    using shmget_loop_None [of rs "round_up sz"] by auto
  with Fatal show ?thesis by (simp add: reserve_hugepages_def)
next
  case Diverges
  then have "kernel_answer rs \<noteq> Some ENOMEM"
    using shmget_loop_None [of rs "round_up sz"] by auto
  with Diverges show ?thesis by (simp add: reserve_hugepages_def)
qed

lemma reserve_hugepages_True:
  assumes "reserve_hugepages rs sz numa s = Returns (True, s')"
  shows "\<exists>k buf. buf \<noteq> 0 \<and> kernel_answer rs = Some (Shm_created buf 0)
           \<and> s' = with_region (fresh_region k buf sz) s"
proof (cases "shmget_loop rs (round_up sz)")
  case (Returns got)
  show ?thesis
  proof (cases got)
    case None
    with Returns assms show ?thesis by (simp add: reserve_hugepages_def)
  next
    case (Some t)
    obtain k buf ret where t: "t = (k, buf, ret)" by (cases t)
    have ka: "kernel_answer rs = Some (Shm_created buf ret)"
      using Returns Some t shmget_loop_Some by simp
    from assms Returns Some t have "buf \<noteq> 0" "ret = 0"
      by (auto simp: reserve_hugepages_def Let_def split: if_splits)
    moreover from assms Returns Some t \<open>buf \<noteq> 0\<close> \<open>ret = 0\<close>
    have "s' = with_region (fresh_region k buf sz) s"
      by (simp add: reserve_hugepages_def shm_region_t_def round_up_mod
          with_region_def fresh_region_def Let_def)
    ultimately show ?thesis using ka by blast
  qed
next
  case (Fatal e)
  with assms show ?thesis by (simp add: reserve_hugepages_def)
next
  case Diverges
  with assms show ?thesis by (simp add: reserve_hugepages_def)
qed

lemma reserve_hugepages_created:
  assumes "kernel_answer rs = Some (Shm_created buf 0)" and "buf \<noteq> 0"
  shows "\<exists>k. reserve_hugepages rs sz numa s
           = Returns (True, with_region (fresh_region k buf sz) s)"
proof -
  obtain k where "shmget_loop rs (round_up sz) = Returns (Some (k, buf, 0))"
    using kernel_answer_created [OF assms(1)] by blast
  then have "reserve_hugepages rs sz numa s
      = Returns (True, with_region (fresh_region k buf sz) s)"
    using assms(2)
    by (simp add: reserve_hugepages_def shm_region_t_def round_up_mod
        with_region_def fresh_region_def Let_def)
  then show ?thesis by blast
qed

section \<open>Popping hugepages and the two scans\<close>

lemma pop_hugepages_Returns:
  "pop_hugepages i n s = Returns s'
     \<longleftrightarrow> n \<le> free_hugepages (shm_list s ! i) \<and> s' = pop_at i n s"
  by (auto simp: pop_hugepages_def pop_at_def popped_def Let_def)

lemma drop_eq_Cons:
  assumes "drop i xs = r # rest"
  shows "i < length xs" and "r = xs ! i" and "rest = drop (Suc i) xs"
proof -
  show i: "i < length xs"
    using assms by (cases "i < length xs") simp_all
  from Cons_nth_drop_Suc [OF i] assms show "r = xs ! i" and "rest = drop (Suc i) xs"
    by simp_all
qed

lemma carve_scan_Returns:
  assumes "carve_scan (drop i (shm_list s)) i s = Returns (a, s')"
  shows "\<exists>j. i \<le> j \<and> j < length (shm_list s)
      \<and> (\<forall>k. i \<le> k \<and> k < j \<longrightarrow> free_hugepages (shm_list s ! k) = 0)
      \<and> free_hugepages (shm_list s ! j) \<noteq> 0
      \<and> a = page_at (cur_buf (shm_list s ! j)) 511
      \<and> s' = (pop_at j 1 s)
          \<lparr>page_freelist := page_freelist s
              @ map (page_at (cur_buf (shm_list s ! j))) [0..<511],
           tot_memory_allocated := tot_memory_allocated s + kPageSize\<rparr>"
  using assms
proof (induction "drop i (shm_list s)" arbitrary: i)
  case Nil
  then show ?case by simp
next
  case (Cons r rest)
  from drop_eq_Cons [OF Cons.hyps(2) [symmetric]]
  have i: "i < length (shm_list s)" and r: "r = shm_list s ! i"
    and rest: "rest = drop (Suc i) (shm_list s)" by simp_all
  show ?case
  proof (cases "free_hugepages r > 0")
    case True
    then have one: "1 \<le> free_hugepages r"
      by (simp add: word_le_nat_alt word_less_nat_alt)
    have pages: "map (page_at (cur_buf r)) [0..<512]
        = map (page_at (cur_buf r)) [0..<511] @ [page_at (cur_buf r) 511]"
    proof -
      have "[0..<512] = [0..<511] @ [511::nat]"
        using upt_Suc_append [of 0 511] by simp
      then show ?thesis by simp
    qed
    have pp: "push_pages 0 (cur_buf r) (page_freelist s)
        = (page_freelist s @ map (page_at (cur_buf r)) [0..<511]) @ [page_at (cur_buf r) 511]"
      using pages by (simp add: push_pages_eq page_at_def [abs_def])
    from Cons.prems Cons.hyps(2) [symmetric] True
    have "carve_scan (r # rest) i s = Returns (a, s')" by simp
    then have "a = page_at (cur_buf r) 511 \<and>
        s' = (pop_at i 1 s)
          \<lparr>page_freelist := page_freelist s @ map (page_at (cur_buf r)) [0..<511],
           tot_memory_allocated := tot_memory_allocated s + kPageSize\<rparr>"
      using True one unfolding carve_scan.simps pp
      by (auto simp: pop_hugepages_def pop_at_def popped_def Let_def r
          simp del: append_assoc)
    then show ?thesis
      using i True by (intro exI [of _ i]) (auto simp: r)
  next
    case False
    then have z: "free_hugepages (shm_list s ! i) = 0"
      by (simp add: r word_gt_0)
    from Cons.prems Cons.hyps(2) [symmetric] False
    have "carve_scan (drop (Suc i) (shm_list s)) (Suc i) s = Returns (a, s')"
      by (simp add: rest)
    from Cons.hyps(1) [OF rest this]
    obtain j where j: "Suc i \<le> j" "j < length (shm_list s)"
      "\<forall>k. Suc i \<le> k \<and> k < j \<longrightarrow> free_hugepages (shm_list s ! k) = 0"
      "free_hugepages (shm_list s ! j) \<noteq> 0"
      "a = page_at (cur_buf (shm_list s ! j)) 511"
      "s' = (pop_at j 1 s)
          \<lparr>page_freelist := page_freelist s
              @ map (page_at (cur_buf (shm_list s ! j))) [0..<511],
           tot_memory_allocated := tot_memory_allocated s + kPageSize\<rparr>"
      by blast
    have "\<forall>k. i \<le> k \<and> k < j \<longrightarrow> free_hugepages (shm_list s ! k) = 0"
      using j(3) z by (metis Suc_leI le_neq_implies_less)
    with j show ?thesis
      by (intro exI [of _ j]) simp
  qed
qed

section \<open>What a returning allocation has done\<close>

lemma alloc_page_Returns:
  assumes "alloc_page rs s = Returns (a, s')"
  shows "(page_freelist s \<noteq> [] \<and> a = last (page_freelist s) \<and>
          s' = s\<lparr>page_freelist := butlast (page_freelist s),
                 tot_memory_allocated := tot_memory_allocated s + kPageSize\<rparr>)
       \<or> (page_freelist s = [] \<and> tot_free_hugepages s = 0 \<and>
          kernel_answer rs = Some ENOMEM \<and> a = 0 \<and>
          s' = s\<lparr>prev_allocation_size := prev_allocation_size s * 2\<rparr>)
       \<or> (page_freelist s = [] \<and> tot_free_hugepages s \<noteq> 0 \<and>
          (\<exists>j. first_free j s \<and> a = page_at (cur_buf (shm_list s ! j)) 511 \<and>
               s' = carve j s))
       \<or> (page_freelist s = [] \<and> tot_free_hugepages s = 0 \<and>
          (\<exists>k buf j. buf \<noteq> 0 \<and> kernel_answer rs = Some (Shm_created buf 0) \<and>
               (let s1 = with_region (fresh_region k buf (prev_allocation_size s * 2))
                           (s\<lparr>prev_allocation_size := prev_allocation_size s * 2\<rparr>)
                in first_free j s1 \<and> a = page_at (cur_buf (shm_list s1 ! j)) 511 \<and>
                   s' = carve j s1)))"
proof (cases "page_freelist s = []")
  case False
  with assms show ?thesis by (auto simp: alloc_page_def)
next
  case True
  note empty = this
  have scan: "\<exists>j. first_free j t \<and> a = page_at (cur_buf (shm_list t ! j)) 511 \<and> s' = carve j t"
    if "carve_scan (shm_list t) 0 t = Returns (a, s')" for t
  proof -
    from that have "carve_scan (drop 0 (shm_list t)) 0 t = Returns (a, s')" by simp
    from carve_scan_Returns [OF this] show ?thesis
      by (auto simp: first_free_def carve_def pop_at_def)
  qed
  show ?thesis
  proof (cases "tot_free_hugepages s = 0")
    case False
    with assms empty have "carve_scan (shm_list s) 0 s = Returns (a, s')"
      by (simp add: alloc_page_def)
    from scan [OF this] show ?thesis using empty False by blast
  next
    case True
    define s0 where "s0 = s\<lparr>prev_allocation_size := prev_allocation_size s * 2\<rparr>"
    from assms empty True
    have a: "and_then (reserve_hugepages rs (prev_allocation_size s * 2) (numa_node s) s0)
        (\<lambda>(success, s2). if \<not> success then Returns (0, s2)
                          else carve_scan (shm_list s2) 0 s2) = Returns (a, s')"
      by (simp add: alloc_page_def s0_def Let_def)
    then obtain ok s2 where
      res: "reserve_hugepages rs (prev_allocation_size s * 2) (numa_node s) s0 = Returns (ok, s2)"
      by (cases "reserve_hugepages rs (prev_allocation_size s * 2) (numa_node s) s0") auto
    show ?thesis
    proof (cases ok)
      case False
      with res have "kernel_answer rs = Some ENOMEM" "s2 = s0"
        by (simp_all add: reserve_hugepages_False)
      moreover from a res False have "a = 0" "s' = s2" by simp_all
      ultimately show ?thesis using empty True by (simp add: s0_def)
    next
      case ok: True
      with res have "reserve_hugepages rs (prev_allocation_size s * 2) (numa_node s) s0
          = Returns (True, s2)" by simp
      from reserve_hugepages_True [OF this]
      obtain k buf where kb: "buf \<noteq> 0" "kernel_answer rs = Some (Shm_created buf 0)"
        "s2 = with_region (fresh_region k buf (prev_allocation_size s * 2)) s0"
        by blast
      from a res ok have "carve_scan (shm_list s2) 0 s2 = Returns (a, s')" by simp
      from scan [OF this] obtain j where
        "first_free j s2" "a = page_at (cur_buf (shm_list s2 ! j)) 511" "s' = carve j s2"
        by blast
      with kb empty True show ?thesis
        unfolding s0_def Let_def by blast
    qed
  qed
qed

lemma free_page_Returns:
  "free_page a s = Returns s' \<longleftrightarrow>
     a mod 4096 = 0 \<and>
     s' = s\<lparr>page_freelist := page_freelist s @ [a],
            tot_memory_allocated := tot_memory_allocated s - kPageSize\<rparr>"
  by (auto simp: free_page_def)

lemma huge_scan_Some:
  assumes "huge_scan (drop i (shm_list s)) i n sz s = Some out"
  shows "\<exists>j. i \<le> j \<and> j < length (shm_list s) \<and> n \<le> free_hugepages (shm_list s ! j)
      \<and> (\<forall>k. i \<le> k \<and> k < j \<longrightarrow> \<not> n \<le> free_hugepages (shm_list s ! k))
      \<and> out = Returns (cur_buf (shm_list s ! j),
                (pop_at j n s)\<lparr>tot_memory_allocated := tot_memory_allocated s + sz\<rparr>)"
  using assms
proof (induction "drop i (shm_list s)" arbitrary: i)
  case Nil
  then show ?case by simp
next
  case (Cons r rest)
  from drop_eq_Cons [OF Cons.hyps(2) [symmetric]]
  have i: "i < length (shm_list s)" and r: "r = shm_list s ! i"
    and rest: "rest = drop (Suc i) (shm_list s)" by simp_all
  show ?case
  proof (cases "n \<le> free_hugepages r")
    case True
    from Cons.prems Cons.hyps(2) [symmetric] True
    have "out = Returns (cur_buf r,
        (pop_at i n s)\<lparr>tot_memory_allocated := tot_memory_allocated s + sz\<rparr>)"
      by (auto simp: pop_hugepages_def pop_at_def popped_def Let_def r)
    then show ?thesis
      using i True by (intro exI [of _ i]) (auto simp: r)
  next
    case False
    from Cons.prems Cons.hyps(2) [symmetric] False
    have "huge_scan (drop (Suc i) (shm_list s)) (Suc i) n sz s = Some out"
      by (simp add: rest)
    from Cons.hyps(1) [OF rest this]
    obtain j where j: "Suc i \<le> j" "j < length (shm_list s)"
      "n \<le> free_hugepages (shm_list s ! j)"
      "\<forall>k. Suc i \<le> k \<and> k < j \<longrightarrow> \<not> n \<le> free_hugepages (shm_list s ! k)"
      "out = Returns (cur_buf (shm_list s ! j),
                (pop_at j n s)\<lparr>tot_memory_allocated := tot_memory_allocated s + sz\<rparr>)"
      by blast
    have "\<forall>k. i \<le> k \<and> k < j \<longrightarrow> \<not> n \<le> free_hugepages (shm_list s ! k)"
      using j(4) False r by (metis Suc_leI le_neq_implies_less)
    with j show ?thesis
      by (intro exI [of _ j]) simp
  qed
qed

lemma huge_scan_None:
  "huge_scan rs i n sz s = None \<longleftrightarrow> list_all (\<lambda>r. \<not> n \<le> free_hugepages r) rs"
  by (induction rs arbitrary: i) auto

lemma round_up_div_mult: "round_up x div kHugepageSize * kHugepageSize = round_up x"
proof -
  have "unat (round_up x div kHugepageSize * kHugepageSize)
      = unat (round_up x div kHugepageSize) * 2097152 mod 2 ^ 64"
    by (simp add: unat_word_ariths unat_kHugepageSize)
  also have "\<dots> = unat (round_up x) mod 2 ^ 64"
    by (simp only: unat_round_up_div)
  also have "\<dots> = unat (round_up x)"
    using unsigned_less [of "round_up x", where 'a = nat] by simp
  finally show ?thesis by (rule word_unat_eq_iff [THEN iffD2])
qed

lemma alloc_huge_Returns:
  assumes "alloc_huge rs size0 s = Returns (a, s')"
  defines "n \<equiv> round_up size0 div kHugepageSize"
  shows "kHugepageSize \<le> size0 \<and> size0 \<le> kMaxAllocSize \<and>
     ((\<exists>j. first_fit j n s \<and> a = cur_buf (shm_list s ! j) \<and> s' = bump j n s)
      \<or> (no_fit n s \<and>
         (\<exists>p. double_while (prev_allocation_size s * 2) (round_up size0) = Some p \<and>
            ((kernel_answer rs = Some ENOMEM \<and> a = 0 \<and> s' = s\<lparr>prev_allocation_size := p\<rparr>)
             \<or> (\<exists>k buf. buf \<noteq> 0 \<and> kernel_answer rs = Some (Shm_created buf 0) \<and>
                  n \<le> round_up p div kHugepageSize \<and> a = buf \<and>
                  s' = bump (length (shm_list s)) n
                         (with_region (fresh_region k buf p)
                            (s\<lparr>prev_allocation_size := p\<rparr>)))))))"
proof -
  from assms(1) have pre: "kHugepageSize \<le> size0" "size0 \<le> kMaxAllocSize"
    by (auto simp: alloc_huge_def split: if_splits)
  have nsz: "n * kHugepageSize = round_up size0"
    by (simp add: n_def round_up_div_mult)
  show ?thesis
  proof (cases "huge_scan (shm_list s) 0 n (round_up size0) s")
    case (Some out)
    then have "huge_scan (drop 0 (shm_list s)) 0 n (round_up size0) s = Some out" by simp
    from huge_scan_Some [OF this] obtain j where j: "j < length (shm_list s)"
      "n \<le> free_hugepages (shm_list s ! j)"
      "\<forall>k. k < j \<longrightarrow> \<not> n \<le> free_hugepages (shm_list s ! k)"
      "out = Returns (cur_buf (shm_list s ! j),
          (pop_at j n s)\<lparr>tot_memory_allocated := tot_memory_allocated s + round_up size0\<rparr>)"
      by auto
    from assms(1) pre Some have "out = Returns (a, s')"
      by (simp add: alloc_huge_def Let_def n_def)
    with j have "first_fit j n s \<and> a = cur_buf (shm_list s ! j) \<and> s' = bump j n s"
      by (simp add: first_fit_def bump_def nsz)
    with pre show ?thesis by blast
  next
    case None
    then have nf: "no_fit n s" by (simp add: huge_scan_None no_fit_def)
    from assms(1) pre None obtain p where
      p: "double_while (prev_allocation_size s * 2) (round_up size0) = Some p"
      by (cases "double_while (prev_allocation_size s * 2) (round_up size0)")
        (auto simp: alloc_huge_def Let_def n_def)
    define s1 where "s1 = s\<lparr>prev_allocation_size := p\<rparr>"
    from assms(1) [unfolded alloc_huge_def Let_def] pre None p
    have a: "and_then (reserve_hugepages rs p (numa_node s) s1)
        (\<lambda>(success, s2). if \<not> success then Returns (0, s2)
           else and_then (pop_hugepages (length (shm_list s2) - 1) n s2) (\<lambda>s3.
             Returns (cur_buf (shm_list s2 ! (length (shm_list s2) - 1)),
               s3\<lparr>tot_memory_allocated := tot_memory_allocated s3 + round_up size0\<rparr>)))
        = Returns (a, s')"
      unfolding n_def s1_def by simp
    then obtain ok s2 where
      res: "reserve_hugepages rs p (numa_node s) s1 = Returns (ok, s2)"
      by (cases "reserve_hugepages rs p (numa_node s) s1") auto
    show ?thesis
    proof (cases ok)
      case False
      with res have "kernel_answer rs = Some ENOMEM" "s2 = s1"
        by (simp_all add: reserve_hugepages_False)
      moreover from a res False have "a = 0" "s' = s2" by simp_all
      ultimately show ?thesis using pre nf p by (auto simp: s1_def)
    next
      case ok: True
      with res have "reserve_hugepages rs p (numa_node s) s1 = Returns (True, s2)" by simp
      from reserve_hugepages_True [OF this]
      obtain k buf where kb: "buf \<noteq> 0" "kernel_answer rs = Some (Shm_created buf 0)"
        "s2 = with_region (fresh_region k buf p) s1"
        by blast
      have len: "length (shm_list s2) - 1 = length (shm_list s)"
        and lastr: "shm_list s2 ! length (shm_list s) = fresh_region k buf p"
        by (simp_all add: kb(3) with_region_def s1_def)
      from a res ok len obtain s3 where
        s3: "pop_hugepages (length (shm_list s)) n s2 = Returns s3"
        by (cases "pop_hugepages (length (shm_list s)) n s2") auto
      then have fit: "n \<le> round_up p div kHugepageSize" and s3': "s3 = pop_at (length (shm_list s)) n s2"
        by (simp_all add: pop_hugepages_Returns lastr fresh_region_def)
      from a res ok len s3 lastr
      have "a = buf" "s' = s3\<lparr>tot_memory_allocated := tot_memory_allocated s3 + round_up size0\<rparr>"
        by (simp_all add: fresh_region_def)
      then have "s' = bump (length (shm_list s)) n s2"
        by (simp add: s3' bump_def nsz pop_at_def)
      with kb fit \<open>a = buf\<close> pre nf p show ?thesis
        unfolding s1_def by blast
    qed
  qed
qed

section \<open>The allocator's invariant\<close>

lemma unat_round_up_mod: "unat (round_up x) mod 2097152 = 0"
  by (simp add: unat_round_up)

lemma region_ok_fresh:
  assumes "buf \<noteq> 0"
  shows "region_ok (fresh_region k buf sz)"
proof -
  have "round_up sz - round_up sz div kHugepageSize * kHugepageSize = 0"
    by (simp add: round_up_div_mult)
  then show ?thesis
    using assms
    by (simp add: region_ok_def fresh_region_def unat_round_up_mod unat_round_up_div)
qed

lemma unat_free_minus:
  fixes n f :: size_t
  assumes "n \<le> f"
  shows "unat (f - n) = unat f - unat n"
  using assms by (simp add: unat_sub)

lemma region_ok_popped:
  assumes "region_ok r" and "n \<le> free_hugepages r"
  shows "region_ok (popped n r)"
proof -
  have le: "unat n \<le> unat (free_hugepages r)"
    using assms(2) by (simp add: word_le_nat_alt)
  have "(unat (free_hugepages r) - unat n) * 2097152 \<le> unat (free_hugepages r) * 2097152"
    by simp
  also have "\<dots> \<le> unat (size_r r)"
    using assms(1) by (simp add: region_ok_def)
  finally have a: "unat (free_hugepages r - n) * 2097152 \<le> unat (size_r r)"
    by (simp add: unat_free_minus [OF assms(2)])
  have b: "cur_buf r + n * kHugepageSize
      = base_buf r + (size_r r - (free_hugepages r - n) * kHugepageSize)"
    using assms(1) by (simp add: region_ok_def algebra_simps)
  show ?thesis
    using assms(1) a b by (simp add: region_ok_def popped_def)
qed

lemma sum_list_map_update:
  fixes f :: "'a \<Rightarrow> size_t"
  assumes "i < length xs"
  shows "sum_list (map f (xs[i := y])) = sum_list (map f xs) - f (xs ! i) + f y"
  using assms
proof (induction xs arbitrary: i)
  case Nil
  then show ?case by simp
next
  case (Cons x xs)
  then show ?case by (cases i) simp_all
qed

lemma request_shape_initial:
  assumes "p \<le> kMaxAllocSize"
  shows "request_shape p"
proof -
  have "unat p \<le> 2 ^ 38"
    using assms by (simp add: kMaxAllocSize_def word_le_nat_alt)
  moreover have "unat p = unat p * 2 ^ 0 mod 2 ^ 64"
    using unsigned_less [of p, where 'a = nat] by simp
  ultimately show ?thesis
    unfolding request_shape_def by blast
qed

lemma request_shape_double:
  assumes "request_shape p"
  shows "request_shape (p * 2)"
proof -
  from assms obtain n k where nk: "n \<le> 2 ^ 38" "unat p = n * 2 ^ k mod 2 ^ 64"
    unfolding request_shape_def by blast
  have "unat (p * 2) = unat p * 2 mod 2 ^ 64"
    by (simp add: unat_word_ariths)
  also have "\<dots> = (n * 2 ^ k mod 2 ^ 64) * 2 mod 2 ^ 64"
    by (simp only: nk(2))
  also have "\<dots> = n * 2 ^ k * 2 mod 2 ^ 64"
    by (rule mod_mult_left_eq)
  also have "\<dots> = n * 2 ^ Suc k mod 2 ^ 64"
    by (simp add: ac_simps)
  finally show ?thesis
    using nk(1) unfolding request_shape_def by blast
qed

lemma double_while_shape:
  assumes "double_while p sz = Some q" and "request_shape p"
  shows "request_shape q \<and> sz \<le> q"
proof -
  have "request_shape p \<longrightarrow> request_shape q \<and> sz \<le> q"
  proof (rule double_while.raw_induct
      [where P = "\<lambda>p sz q. request_shape p \<longrightarrow> request_shape q \<and> sz \<le> q", OF _ assms(1)])
    fix f :: "size_t \<Rightarrow> size_t \<Rightarrow> size_t option" and p sz q
    assume IH: "\<And>p sz q. f p sz = Some q \<Longrightarrow> request_shape p \<longrightarrow> request_shape q \<and> sz \<le> q"
      and eq: "(if p < sz then f (p * 2) sz else Some p) = Some q"
    show "request_shape p \<longrightarrow> request_shape q \<and> sz \<le> q"
    proof (cases "p < sz")
      case True
      with eq have "f (p * 2) sz = Some q" by simp
      from IH [OF this] have "request_shape (p * 2) \<longrightarrow> request_shape q \<and> sz \<le> q" .
      with request_shape_double [of p] show ?thesis by simp
    next
      case False
      with eq have "q = p" by simp
      with False show ?thesis by (simp add: not_less)
    qed
  qed
  with assms(2) show ?thesis by blast
qed

text \<open>A request of the shape the allocator makes is rounded up without wrapping around.\<close>

lemma request_shape_bound:
  assumes "request_shape p"
  shows "unat p + 2097151 < 2 ^ 64"
proof -
  from assms obtain n k where nk: "n \<le> 2 ^ 38" "unat p = n * 2 ^ k mod 2 ^ 64"
    unfolding request_shape_def by blast
  show ?thesis
  proof (cases "k < 21")
    case True
    then have "(2::nat) ^ k \<le> 2 ^ 20"
      by (intro power_increasing) simp_all
    with nk(1) have "n * 2 ^ k \<le> 2 ^ 38 * 2 ^ 20"
      by (rule mult_mono) simp_all
    then have "n * 2 ^ k \<le> 2 ^ 58" by simp
    moreover have "unat p \<le> n * 2 ^ k"
      unfolding nk(2) by (rule mod_less_eq_dividend)
    ultimately have "unat p \<le> 2 ^ 58" by (rule order_trans [rotated])
    then show ?thesis by simp
  next
    case False
    then obtain d where d: "k = 21 + d"
      using le_Suc_ex [of 21 k] by auto
    have "(2::nat) ^ 21 dvd n * 2 ^ k"
      by (simp add: d power_add)
    moreover have "(2::nat) ^ 21 dvd 2 ^ 64"
      by (rule le_imp_power_dvd) simp
    ultimately have "(2::nat) ^ 21 dvd unat p"
      unfolding nk(2) by (simp add: dvd_mod)
    then obtain m where m: "unat p = 2 ^ 21 * m" ..
    have "unat p < 2 ^ 64"
      using unsigned_less [of p, where 'a = nat] by simp
    then have "2 ^ 21 * m < (2::nat) ^ 21 * 2 ^ 43"
      by (simp add: m)
    then have "m < 2 ^ 43" by simp
    then have "m + 1 \<le> 2 ^ 43" by simp
    then have "2 ^ 21 * (m + 1) \<le> (2::nat) ^ 21 * 2 ^ 43"
      by (rule mult_le_mono2)
    then show ?thesis by (simp add: m)
  qed
qed

lemma allocator_inv_with_region:
  assumes "allocator_inv s" and "region_ok r"
  shows "allocator_inv (with_region r s)"
  using assms by (simp add: allocator_inv_def with_region_def)

lemma allocator_inv_pop_at:
  assumes "allocator_inv s" and "i < length (shm_list s)"
    and "n \<le> free_hugepages (shm_list s ! i)"
  shows "allocator_inv (pop_at i n s)"
proof -
  have ok: "region_ok (popped n (shm_list s ! i))"
    using assms by (intro region_ok_popped) (simp_all add: allocator_inv_def)
  have regs: "\<forall>r \<in> set ((shm_list s)[i := popped n (shm_list s ! i)]). region_ok r"
    using assms(1) ok set_update_subset_insert [of "shm_list s" i]
    by (auto simp: allocator_inv_def)
  have free: "sum_list (map free_hugepages ((shm_list s)[i := popped n (shm_list s ! i)]))
      = tot_free_hugepages s - n"
    using assms(1) by (simp add: sum_list_map_update [OF assms(2)] popped_def allocator_inv_def)
  have sz: "map size_r ((shm_list s)[i := popped n (shm_list s ! i)]) = map size_r (shm_list s)"
    by (simp add: map_update popped_def) (metis list_update_id map_update)
  show ?thesis
    using assms(1) regs free sz by (simp add: allocator_inv_def pop_at_def)
qed

lemma page_multiple_add:
  fixes x y :: size_t
  assumes "unat x mod 4096 = 0" and "unat y mod 4096 = 0"
  shows "unat (x + y) mod 4096 = 0"
proof -
  have "(4096::nat) dvd unat x" and "(4096::nat) dvd unat y"
    using assms by (simp_all add: dvd_eq_mod_eq_0)
  then have "(4096::nat) dvd unat x + unat y"
    by (rule dvd_add)
  moreover have "(4096::nat) dvd 2 ^ 64"
    by (rule dvd_trans [of _ "2 ^ 12"]) (simp_all add: le_imp_power_dvd)
  ultimately have "(4096::nat) dvd (unat x + unat y) mod 2 ^ 64"
    by (simp add: dvd_mod)
  then show ?thesis
    by (simp add: unat_word_ariths dvd_eq_mod_eq_0)
qed

lemma page_multiple_sub:
  fixes x y :: size_t
  assumes "unat x mod 4096 = 0" and "unat y mod 4096 = 0"
  shows "unat (x - y) mod 4096 = 0"
proof -
  have d: "(4096::nat) dvd 2 ^ 64"
    by (rule dvd_trans [of _ "2 ^ 12"]) (simp_all add: le_imp_power_dvd)
  have "unat x = (unat (x - y) + unat y) mod 2 ^ 64"
    using unat_word_ariths(1) [of "x - y" y] by simp
  with assms(1) have "(4096::nat) dvd (unat (x - y) + unat y) mod 2 ^ 64"
    by (simp add: dvd_eq_mod_eq_0)
  with d have "(4096::nat) dvd unat (x - y) + unat y"
    by (simp add: dvd_mod_iff)
  moreover have "(4096::nat) dvd unat y"
    using assms(2) by (simp add: dvd_eq_mod_eq_0)
  ultimately have "(4096::nat) dvd unat (x - y)"
    by (simp add: dvd_add_left_iff)
  then show ?thesis by (simp add: dvd_eq_mod_eq_0)
qed

lemma page_multiple_hugepages: "unat (n * kHugepageSize) mod 4096 = 0"
proof -
  have "(4096::nat) dvd unat n * 2097152" by simp
  moreover have "(4096::nat) dvd 2 ^ 64"
    by (rule dvd_trans [of _ "2 ^ 12"]) (simp_all add: le_imp_power_dvd)
  ultimately have "(4096::nat) dvd unat n * 2097152 mod 2 ^ 64"
    by (simp add: dvd_mod)
  then show ?thesis
    by (simp add: unat_word_ariths unat_kHugepageSize dvd_eq_mod_eq_0)
qed

lemma allocator_inv_allocated:
  "allocator_inv s \<Longrightarrow> unat m mod 4096 = 0
     \<Longrightarrow> allocator_inv (s\<lparr>tot_memory_allocated := m\<rparr>)"
  by (simp add: allocator_inv_def)

lemma allocator_inv_more_allocated:
  "allocator_inv s \<Longrightarrow> unat m mod 4096 = 0
     \<Longrightarrow> allocator_inv (s\<lparr>tot_memory_allocated := tot_memory_allocated s + m\<rparr>)"
  by (intro allocator_inv_allocated page_multiple_add) (simp_all add: allocator_inv_def)

lemma allocator_inv_prev:
  "allocator_inv s \<Longrightarrow> request_shape p \<Longrightarrow> allocator_inv (s\<lparr>prev_allocation_size := p\<rparr>)"
  by (simp add: allocator_inv_def)

lemma allocator_inv_carve:
  assumes "allocator_inv s" and "first_free j s"
  shows "allocator_inv (carve j s)"
proof -
  from assms(2) have j: "j < length (shm_list s)" and "free_hugepages (shm_list s ! j) \<noteq> 0"
    by (simp_all add: first_free_def)
  then have "1 \<le> free_hugepages (shm_list s ! j)"
    by (simp add: word_le_nat_alt unat_gt_0 Suc_leI)
  from allocator_inv_pop_at [OF assms(1) j this]
  have "allocator_inv (pop_at j 1 s)" .
  then have "allocator_inv ((pop_at j 1 s)
      \<lparr>tot_memory_allocated := tot_memory_allocated (pop_at j 1 s) + kPageSize\<rparr>)"
    by (rule allocator_inv_more_allocated) (simp add: kPageSize_def)
  then show ?thesis
    by (simp add: carve_def pop_at_def allocator_inv_def)
qed

lemma allocator_inv_bump:
  assumes "allocator_inv s" and "j < length (shm_list s)"
    and "n \<le> free_hugepages (shm_list s ! j)"
  shows "allocator_inv (bump j n s)"
proof -
  from allocator_inv_pop_at [OF assms]
  have "allocator_inv ((pop_at j n s)
      \<lparr>tot_memory_allocated := tot_memory_allocated (pop_at j n s) + n * kHugepageSize\<rparr>)"
    by (rule allocator_inv_more_allocated) (rule page_multiple_hugepages)
  then show ?thesis
    by (simp add: bump_def pop_at_def)
qed

lemma allocator_inv_alloc_page:
  assumes "allocator_inv s" and "alloc_page rs s = Returns (a, s')"
  shows "allocator_inv s'"
proof -
  have dbl: "allocator_inv (s\<lparr>prev_allocation_size := prev_allocation_size s * 2\<rparr>)"
    using assms(1) by (intro allocator_inv_prev request_shape_double) (simp_all add: allocator_inv_def)
  from alloc_page_Returns [OF assms(2)] show ?thesis
  proof (elim disjE conjE exE)
    assume s': "s' = s\<lparr>page_freelist := butlast (page_freelist s),
        tot_memory_allocated := tot_memory_allocated s + kPageSize\<rparr>"
    have "allocator_inv (s\<lparr>tot_memory_allocated := tot_memory_allocated s + kPageSize\<rparr>)"
      using assms(1) by (rule allocator_inv_more_allocated) (simp add: kPageSize_def)
    then show ?thesis by (simp add: s' allocator_inv_def)
  next
    assume "s' = s\<lparr>prev_allocation_size := prev_allocation_size s * 2\<rparr>"
    with dbl show ?thesis by simp
  next
    fix j assume "first_free j s" "s' = carve j s"
    with assms(1) show ?thesis by (simp add: allocator_inv_carve)
  next
    fix k buf j
    assume buf: "buf \<noteq> 0"
      and *: "let s1 = with_region (fresh_region k buf (prev_allocation_size s * 2))
                  (s\<lparr>prev_allocation_size := prev_allocation_size s * 2\<rparr>)
         in first_free j s1 \<and> a = page_at (cur_buf (shm_list s1 ! j)) 511 \<and> s' = carve j s1"
    from dbl region_ok_fresh [OF buf]
    have "allocator_inv (with_region (fresh_region k buf (prev_allocation_size s * 2))
        (s\<lparr>prev_allocation_size := prev_allocation_size s * 2\<rparr>))"
      by (rule allocator_inv_with_region)
    with * show ?thesis by (simp add: Let_def allocator_inv_carve)
  qed
qed

lemma allocator_inv_free_page:
  assumes "allocator_inv s" and "free_page a s = Returns s'"
  shows "allocator_inv s'"
proof -
  have "unat (tot_memory_allocated s - kPageSize) mod 4096 = 0"
    using assms(1) by (intro page_multiple_sub) (simp_all add: allocator_inv_def kPageSize_def)
  with assms show ?thesis
    by (auto simp: free_page_Returns allocator_inv_def)
qed

lemma allocator_inv_alloc_huge:
  assumes "allocator_inv s" and "alloc_huge rs size0 s = Returns (a, s')"
  shows "allocator_inv s'"
proof -
  define n where "n = round_up size0 div kHugepageSize"
  from alloc_huge_Returns [OF assms(2), folded n_def]
  show ?thesis
  proof (elim disjE conjE exE)
    fix j assume "first_fit j n s" "s' = bump j n s"
    with assms(1) show ?thesis by (simp add: first_fit_def allocator_inv_bump)
  next
    fix p assume "double_while (prev_allocation_size s * 2) (round_up size0) = Some p"
      and "s' = s\<lparr>prev_allocation_size := p\<rparr>"
    then have p: "double_while (prev_allocation_size s * 2) (round_up size0) = Some p"
      and s': "s' = s\<lparr>prev_allocation_size := p\<rparr>" by simp_all
    have "request_shape p"
      using double_while_shape [OF p] request_shape_double assms(1)
      by (simp add: allocator_inv_def)
    with assms(1) show ?thesis
      unfolding s' by (rule allocator_inv_prev)
  next
    fix p k buf
    assume p: "double_while (prev_allocation_size s * 2) (round_up size0) = Some p"
      and buf: "buf \<noteq> 0" and fit: "n \<le> round_up p div kHugepageSize"
      and s': "s' = bump (length (shm_list s)) n
                 (with_region (fresh_region k buf p) (s\<lparr>prev_allocation_size := p\<rparr>))"
    have "request_shape p"
      using double_while_shape [OF p] request_shape_double assms(1)
      by (simp add: allocator_inv_def)
    with assms(1) have "allocator_inv (s\<lparr>prev_allocation_size := p\<rparr>)"
      by (rule allocator_inv_prev)
    from allocator_inv_with_region [OF this region_ok_fresh [OF buf]]
    have "allocator_inv (with_region (fresh_region k buf p) (s\<lparr>prev_allocation_size := p\<rparr>))" .
    then show ?thesis
      unfolding s' using fit
      by (intro allocator_inv_bump) (simp_all add: with_region_def fresh_region_def)
  qed
qed

lemma allocator_inv_ctor:
  assumes "HugeAllocator_ctor M rs init numa = Returns s"
  shows "allocator_inv s"
proof -
  define e where "e = \<lparr>numa_node = numa, shm_list = [], page_freelist = [],
    tot_free_hugepages = 0, prev_allocation_size = init, tot_memory_reserved = 0,
    tot_memory_allocated = 0\<rparr>"
  from assms have pre: "init \<le> kMaxAllocSize"
    by (auto simp: HugeAllocator_ctor_def split: if_splits)
  then have e: "allocator_inv e"
    by (simp add: allocator_inv_def e_def request_shape_initial)
  from assms obtain ok where res: "reserve_hugepages rs init numa e = Returns (ok, s)"
    unfolding HugeAllocator_ctor_def e_def [symmetric]
    by (cases "reserve_hugepages rs init numa e") (auto split: if_splits)
  show ?thesis
  proof (cases ok)
    case True
    with res have "reserve_hugepages rs init numa e = Returns (True, s)" by simp
    from reserve_hugepages_True [OF this] e show ?thesis
      by (auto intro: allocator_inv_with_region region_ok_fresh)
  next
    case False
    with res e show ?thesis by (simp add: reserve_hugepages_False)
  qed
qed

lemma allocator_inv_step:
  assumes "allocator_inv (fst \<sigma>)" and "step c \<sigma> = Returns \<sigma>'"
  shows "allocator_inv (fst \<sigma>')"
proof (cases \<sigma>)
  case (Pair s cl)
  show ?thesis
  proof (cases c)
    case (Alloc_page rs)
    with assms Pair show ?thesis
      by (cases "alloc_page rs s") (auto dest: allocator_inv_alloc_page)
  next
    case (Free_page a)
    with assms Pair show ?thesis
      by (cases "free_page a s") (auto dest: allocator_inv_free_page)
  next
    case (Alloc_huge rs sz)
    with assms Pair show ?thesis
      by (cases "alloc_huge rs sz s") (auto dest: allocator_inv_alloc_huge)
  qed
qed

lemma allocator_inv_run:
  assumes "allocator_inv (fst \<sigma>)" and "run cs \<sigma> = Returns \<sigma>'"
  shows "allocator_inv (fst \<sigma>')"
  using assms
proof (induction cs arbitrary: \<sigma>)
  case Nil
  then show ?case by simp
next
  case (Cons c cs)
  from Cons.prems(2) obtain \<sigma>1 where 1: "step c \<sigma> = Returns \<sigma>1" "run cs \<sigma>1 = Returns \<sigma>'"
    by (cases "step c \<sigma>") auto
  from Cons.IH [OF allocator_inv_step [OF Cons.prems(1) 1(1)] 1(2)] show ?case .
qed

section \<open>Ranges handed out of a region\<close>

lemma unat_cur_buf:
  assumes "region_ok r" and "unat (base_buf r) + unat (size_r r) < 2 ^ 64"
  shows "unat (cur_buf r) = unat (base_buf r) + carved r"
proof -
  from assms(1) have le: "unat (free_hugepages r) * 2097152 \<le> unat (size_r r)"
    and cur: "cur_buf r = base_buf r + (size_r r - free_hugepages r * kHugepageSize)"
    by (simp_all add: region_ok_def)
  have lt: "unat (size_r r) < 2 ^ 64"
    using unsigned_less [of "size_r r", where 'a = nat] by simp
  have m: "unat (free_hugepages r * kHugepageSize) = unat (free_hugepages r) * 2097152"
    using le lt by (simp add: unat_word_ariths unat_kHugepageSize)
  have "free_hugepages r * kHugepageSize \<le> size_r r"
    using le by (simp add: word_le_nat_alt m)
  then have d: "unat (size_r r - free_hugepages r * kHugepageSize) = carved r"
    by (simp add: unat_sub m carved_def)
  have "unat (base_buf r) + carved r < 2 ^ 64"
    using assms(2) by (simp add: carved_def)
  then show ?thesis
    unfolding cur by (simp add: unat_word_ariths d)
qed

lemma carved_popped:
  assumes "region_ok r" and "n \<le> free_hugepages r"
  shows "carved (popped n r) = carved r + unat n * 2097152"
    and "carved r + unat n * 2097152 \<le> unat (size_r r)"
proof -
  have le: "unat n \<le> unat (free_hugepages r)"
    using assms(2) by (simp add: word_le_nat_alt)
  from assms(1) have cap: "unat (free_hugepages r) * 2097152 \<le> unat (size_r r)"
    by (simp add: region_ok_def)
  have "unat (free_hugepages r) * 2097152
      = (unat (free_hugepages r) - unat n) * 2097152 + unat n * 2097152"
    using le by (simp add: algebra_simps)
  with cap show "carved (popped n r) = carved r + unat n * 2097152"
    and "carved r + unat n * 2097152 \<le> unat (size_r r)"
    by (simp_all add: carved_def popped_def unat_free_minus [OF assms(2)])
qed

lemma popped_fields [simp]:
  "base_buf (popped n r) = base_buf r" "size_r (popped n r) = size_r r"
  "region_range (popped n r) = region_range r"
  by (simp_all add: popped_def region_range_def)

lemma inside_popped:
  assumes "inside b r" and "region_ok r" and "n \<le> free_hugepages r"
  shows "inside b (popped n r)"
  using assms carved_popped(1) [OF assms(2,3)] by (simp add: inside_def)

lemma housed_append: "housed regs b \<Longrightarrow> housed (regs @ extra) b"
  by (auto simp: housed_def)

lemma housed_update:
  assumes "housed regs b" and "i < length regs" and "region_ok (regs ! i)"
    and "n \<le> free_hugepages (regs ! i)"
  shows "housed (regs[i := popped n (regs ! i)]) b"
proof -
  from assms(1) obtain r where pos: "0 < snd b" and r: "r \<in> set regs" "inside b r"
    by (auto simp: housed_def)
  from r(1) obtain k where k: "k < length regs" "regs ! k = r"
    by (auto simp: in_set_conv_nth)
  let ?regs = "regs[i := popped n (regs ! i)]"
  have "\<exists>r' \<in> set ?regs. inside b r'"
  proof (cases "k = i")
    case True
    with k r(2) have "inside b (regs ! i)" by simp
    from inside_popped [OF this assms(3,4)] have "inside b (?regs ! i)"
      using assms(2) by simp
    moreover have "?regs ! i \<in> set ?regs"
      using assms(2) by (intro nth_mem) simp
    ultimately show ?thesis by blast
  next
    case False
    then have "?regs ! k = r" using k by simp
    moreover have "?regs ! k \<in> set ?regs"
      using k(1) by (intro nth_mem) simp
    ultimately show ?thesis using r(2) by metis
  qed
  with pos show ?thesis by (simp add: housed_def)
qed

lemma housed_start:
  assumes "housed regs b" and "\<forall>r \<in> set regs. region_ok r"
  shows "0 < fst b"
proof -
  from assms(1) obtain r where r: "r \<in> set regs" "inside b r"
    by (auto simp: housed_def)
  with assms(2) have "base_buf r \<noteq> 0" by (simp add: region_ok_def)
  then have "0 < unat (base_buf r)" by (simp add: unat_gt_0)
  with r(2) show ?thesis by (simp add: inside_def)
qed

text \<open>What is cut off at the cursor lies in the free part before and is housed after.\<close>

lemma cut_range:
  assumes "region_ok r" and "unat (base_buf r) + unat (size_r r) < 2 ^ 64"
    and "n \<le> free_hugepages r"
    and "off + len \<le> unat n * 2097152"
  shows "in_free_part (unat (cur_buf r) + off, len) r"
    and "inside (unat (cur_buf r) + off, len) (popped n r)"
  using assms(4) unat_cur_buf [OF assms(1,2)] carved_popped [OF assms(1,3)]
  by (simp_all add: in_free_part_def inside_def)

lemma unat_page_at:
  assumes "region_ok r" and "unat (base_buf r) + unat (size_r r) < 2 ^ 64"
    and "1 \<le> free_hugepages r" and "j < 512"
  shows "unat (page_at (cur_buf r) j) = unat (cur_buf r) + j * 4096"
proof -
  have "carved r + 2097152 \<le> unat (size_r r)"
    using carved_popped(2) [OF assms(1,3)] by simp
  with assms(2) unat_cur_buf [OF assms(1,2)]
  have room: "unat (cur_buf r) + 2097152 < 2 ^ 64" by simp
  have o: "unat (of_nat j * kPageSize :: size_t) = j * 4096"
    using assms(4) by (simp add: unat_word_ariths kPageSize_def unat_of_nat)
  have "unat (cur_buf r) + unat (of_nat j * kPageSize :: size_t) < 2 ^ LENGTH(64)"
    using room assms(4) by (simp add: o)
  then have "unat (cur_buf r + of_nat j * kPageSize)
      = unat (cur_buf r) + unat (of_nat j * kPageSize :: size_t)"
    by (rule unat_add_lem [THEN iffD1])
  then show ?thesis
    by (simp only: page_at_def o)
qed

lemma page_cut:
  assumes "region_ok r" and "unat (base_buf r) + unat (size_r r) < 2 ^ 64"
    and "1 \<le> free_hugepages r" and "j < 512"
  shows "in_free_part (page_range (page_at (cur_buf r) j)) r"
    and "inside (page_range (page_at (cur_buf r) j)) (popped 1 r)"
proof -
  have "j * 4096 + 4096 \<le> unat (1 :: size_t) * 2097152"
    using assms(4) by simp
  from cut_range [OF assms(1,2,3) this]
  show "in_free_part (page_range (page_at (cur_buf r) j)) r"
    and "inside (page_range (page_at (cur_buf r) j)) (popped 1 r)"
    by (simp_all add: page_range_def unat_page_at [OF assms])
qed

lemma apart_sym: "apart x y \<Longrightarrow> apart y x"
  by (auto simp: apart_def)

lemma sorted_wrt_apart_nth:
  assumes "sorted_wrt apart xs" and "i < length xs" and "k < length xs" and "i \<noteq> k"
  shows "apart (xs ! i) (xs ! k)"
proof (cases "i < k")
  case True
  with assms show ?thesis by (simp add: sorted_wrt_iff_nth_less)
next
  case False
  with assms have "k < i" by simp
  with assms have "apart (xs ! k) (xs ! i)" by (simp add: sorted_wrt_iff_nth_less)
  then show ?thesis by (rule apart_sym)
qed

lemma housed_apart_free_part:
  assumes "housed regs b" and "mappings_disjoint regs" and "i < length regs"
    and "in_free_part nb (regs ! i)"
  shows "apart b nb"
proof -
  from assms(1) obtain r where pos: "0 < snd b" and r: "r \<in> set regs" "inside b r"
    by (auto simp: housed_def)
  from r(1) obtain k where k: "k < length regs" "regs ! k = r"
    by (auto simp: in_set_conv_nth)
  show ?thesis
  proof (cases "k = i")
    case True
    with k r(2) assms(4) show ?thesis
      by (simp add: inside_def in_free_part_def apart_def)
  next
    case False
    have "apart (map region_range regs ! k) (map region_range regs ! i)"
      using assms(2,3) k(1) False
      by (intro sorted_wrt_apart_nth) (simp_all add: mappings_disjoint_def)
    then have ap: "apart (region_range r) (region_range (regs ! i))"
      using k assms(3) by simp
    have "carved r \<le> unat (size_r r)" by (simp add: carved_def)
    with r(2) pos have b: "unat (base_buf r) \<le> fst b"
      "fst b + snd b \<le> unat (base_buf r) + unat (size_r r)" "0 < unat (size_r r)"
      by (simp_all add: inside_def)
    from assms(4) have n: "unat (base_buf (regs ! i)) \<le> fst nb"
      "fst nb + snd nb \<le> unat (base_buf (regs ! i)) + unat (size_r (regs ! i))"
      by (simp_all add: in_free_part_def)
    from ap b n show ?thesis
      by (auto simp: apart_def region_range_def)
  qed
qed

lemma sorted_wrt_apart_perm:
  assumes "mset xs = mset ys" and "sorted_wrt apart xs"
  shows "sorted_wrt apart ys"
  using assms
proof (induction xs arbitrary: ys)
  case Nil
  then show ?case by simp
next
  case (Cons x xs)
  have "x \<in> set ys"
    using Cons.prems(1) by (metis list.set_intros(1) set_mset_mset)
  then obtain as bs where ys: "ys = as @ x # bs"
    by (auto dest: split_list)
  with Cons.prems(1) have m: "mset xs = mset (as @ bs)" by simp
  from Cons.prems(2) have x: "\<forall>z \<in> set xs. apart x z" and xs: "sorted_wrt apart xs"
    by simp_all
  from Cons.IH [OF m xs] have ab: "sorted_wrt apart (as @ bs)" .
  have s: "set xs = set as \<union> set bs"
    using m by (metis set_append set_mset_mset)
  show ?case
    unfolding ys using ab x s
    by (auto simp: sorted_wrt_append intro: apart_sym)
qed

section \<open>The ledger's invariant under the state changes\<close>

lemma map_region_range_update [simp]:
  "map region_range (regs[i := popped n (regs ! i)]) = map region_range regs"
  by (simp add: map_update) (metis list_update_id map_update)

lemma mappings_fit_nth:
  assumes "mappings_fit regs" and "i < length regs"
  shows "unat (base_buf (regs ! i)) + unat (size_r (regs ! i)) < 2 ^ 64"
proof -
  have "regs ! i \<in> set regs" using assms(2) by simp
  with assms(1) show ?thesis
    by (simp add: mappings_fit_def list_all_iff region_range_def)
qed

lemma ranges_simps:
  "ranges (s, c) = map page_range (page_freelist s) @ map page_range (live_pages c)
     @ map huge_range (huge_bufs c)"
  by (simp add: ranges_def live_ranges_def)

lemma ledger_inv_grow:
  assumes "ledger_inv (s, c)"
  shows "ledger_inv (with_region r (s\<lparr>prev_allocation_size := p\<rparr>), c)"
  using assms by (simp add: ledger_inv_def with_region_def ranges_simps housed_append)

lemma ledger_inv_prev:
  assumes "ledger_inv (s, c)"
  shows "ledger_inv (s\<lparr>prev_allocation_size := p\<rparr>, c)"
  using assms by (simp add: ledger_inv_def ranges_simps)

lemma first_free_one:
  assumes "first_free j s"
  shows "j < length (shm_list s)" and "1 \<le> free_hugepages (shm_list s ! j)"
proof -
  from assms show "j < length (shm_list s)" by (simp add: first_free_def)
  from assms have "free_hugepages (shm_list s ! j) \<noteq> 0" by (simp add: first_free_def)
  then show "1 \<le> free_hugepages (shm_list s ! j)"
    by (simp add: word_le_nat_alt unat_gt_0 Suc_leI)
qed

lemma carve_fields [simp]:
  "shm_list (carve j s) = (shm_list s)[j := popped 1 (shm_list s ! j)]"
  "page_freelist (carve j s)
     = page_freelist s @ map (page_at (cur_buf (shm_list s ! j))) [0..<511]"
  "tot_memory_allocated (carve j s) = tot_memory_allocated s + kPageSize"
  "prev_allocation_size (carve j s) = prev_allocation_size s"
  "tot_memory_reserved (carve j s) = tot_memory_reserved s"
  "tot_free_hugepages (carve j s) = tot_free_hugepages s - 1"
  by (simp_all add: carve_def pop_at_def)

lemma bump_fields [simp]:
  "shm_list (bump j n s) = (shm_list s)[j := popped n (shm_list s ! j)]"
  "page_freelist (bump j n s) = page_freelist s"
  "tot_memory_allocated (bump j n s) = tot_memory_allocated s + n * kHugepageSize"
  "prev_allocation_size (bump j n s) = prev_allocation_size s"
  "tot_memory_reserved (bump j n s) = tot_memory_reserved s"
  "tot_free_hugepages (bump j n s) = tot_free_hugepages s - n"
  by (simp_all add: bump_def pop_at_def)

lemma upt_512: "[0..<512] = [0..<511] @ [511::nat]"
  using upt_Suc_append [of 0 511] by simp

lemma ledger_inv_carve:
  assumes inv: "allocator_inv s" and led: "ledger_inv (s, c)"
    and empty: "page_freelist s = []" and ff: "first_free j s"
    and fit: "mappings_fit (shm_list s)"
  defines "a \<equiv> page_at (cur_buf (shm_list s ! j)) 511"
  shows "a \<noteq> 0" and "ledger_inv (carve j s, c\<lparr>live_pages := a # live_pages c\<rparr>)"
proof -
  let ?r = "shm_list s ! j"
  let ?regs = "(shm_list s)[j := popped 1 ?r]"
  note j = first_free_one [OF ff]
  have rok: "region_ok ?r"
    using inv j(1) by (simp add: allocator_inv_def)
  note rfit = mappings_fit_nth [OF fit j(1)]
  have page: "housed ?regs (page_range (page_at (cur_buf ?r) k))" if "k < 512" for k
  proof -
    from page_cut(2) [OF rok rfit j(2) that]
    have "inside (page_range (page_at (cur_buf ?r) k)) (?regs ! j)"
      using j(1) by simp
    moreover have "?regs ! j \<in> set ?regs"
      using j(1) by (intro nth_mem) simp
    ultimately show ?thesis
      by (auto simp: housed_def page_range_def)
  qed
  have "0 < fst (page_range a)"
    using page [of 511] inv j
    by (intro housed_start [where regs = ?regs])
      (auto simp: a_def allocator_inv_def dest!: set_update_subset_insert [THEN subsetD]
        intro: region_ok_popped rok)
  then show "a \<noteq> 0"
    by (auto simp: page_range_def)
  have old: "housed ?regs b" if "b \<in> set (ranges (s, c))" for b
    using led that j rok by (intro housed_update) (simp_all add: ledger_inv_def)
  have acc: "tot_memory_allocated s + kPageSize
      = kPageSize * of_nat (length (a # live_pages c)) + sum_list (map snd (huge_bufs c))"
    using led by (simp add: ledger_inv_def algebra_simps)
  show "ledger_inv (carve j s, c\<lparr>live_pages := a # live_pages c\<rparr>)"
    unfolding ledger_inv_def
  proof (intro conjI ballI)
    show "tot_memory_allocated (fst (carve j s, c\<lparr>live_pages := a # live_pages c\<rparr>))
        = kPageSize * of_nat (length (live_pages (snd (carve j s, c\<lparr>live_pages := a # live_pages c\<rparr>))))
          + sum_list (map snd (huge_bufs (snd (carve j s, c\<lparr>live_pages := a # live_pages c\<rparr>))))"
      using acc by simp
  next
    fix b assume "b \<in> set (ranges (carve j s, c\<lparr>live_pages := a # live_pages c\<rparr>))"
    then consider k where "k < 511" "b = page_range (page_at (cur_buf ?r) k)"
      | "b = page_range a" | "b \<in> set (ranges (s, c))"
      by (auto simp: ranges_simps empty)
    then show "housed (shm_list (fst (carve j s, c\<lparr>live_pages := a # live_pages c\<rparr>))) b"
    proof cases
      case 1
      then show ?thesis using page [of k] by simp
    next
      case 2
      then show ?thesis using page [of 511] by (simp add: a_def)
    next
      case 3
      then show ?thesis using old by simp
    qed
  qed
qed

lemma unat_bump_length:
  assumes "region_ok r" and "n \<le> free_hugepages r"
  shows "unat (n * kHugepageSize) = unat n * 2097152"
proof -
  have "unat n * 2097152 \<le> unat (size_r r)"
    using carved_popped(2) [OF assms] by simp
  also have "\<dots> < 2 ^ 64"
    using unsigned_less [of "size_r r", where 'a = nat] by simp
  finally show ?thesis
    by (simp add: unat_word_ariths unat_kHugepageSize)
qed

lemma ledger_inv_bump:
  assumes inv: "allocator_inv s" and led: "ledger_inv (s, c)"
    and j: "j < length (shm_list s)" and n: "n \<le> free_hugepages (shm_list s ! j)"
    and pos: "n \<noteq> 0" and fit: "mappings_fit (shm_list s)"
  defines "a \<equiv> cur_buf (shm_list s ! j)"
  shows "a \<noteq> 0"
    and "ledger_inv (bump j n s, c\<lparr>huge_bufs := (a, n * kHugepageSize) # huge_bufs c\<rparr>)"
proof -
  let ?r = "shm_list s ! j"
  let ?regs = "(shm_list s)[j := popped n ?r]"
  let ?c = "c\<lparr>huge_bufs := (a, n * kHugepageSize) # huge_bufs c\<rparr>"
  have rok: "region_ok ?r"
    using inv j by (simp add: allocator_inv_def)
  note rfit = mappings_fit_nth [OF fit j]
  note len = unat_bump_length [OF rok n]
  have "0 < unat n" using pos by (simp add: unat_gt_0)
  then have lpos: "0 < unat n * 2097152" by simp
  have "inside (unat (cur_buf ?r) + 0, unat n * 2097152) (popped n ?r)"
    by (rule cut_range(2) [OF rok rfit n]) simp
  then have "inside (huge_range (a, n * kHugepageSize)) (?regs ! j)"
    using j by (simp add: huge_range_def a_def len)
  moreover have "?regs ! j \<in> set ?regs"
    using j by (intro nth_mem) simp
  ultimately have new: "housed ?regs (huge_range (a, n * kHugepageSize))"
    using lpos by (auto simp: housed_def huge_range_def len)
  have "0 < fst (huge_range (a, n * kHugepageSize))"
    using new inv j
    by (intro housed_start [where regs = ?regs])
      (auto simp: allocator_inv_def dest!: set_update_subset_insert [THEN subsetD]
        intro: region_ok_popped rok n)
  then show "a \<noteq> 0"
    by (auto simp: huge_range_def)
  have old: "housed ?regs b" if "b \<in> set (ranges (s, c))" for b
    using led that j rok n by (intro housed_update) (simp_all add: ledger_inv_def)
  show "ledger_inv (bump j n s, ?c)"
    unfolding ledger_inv_def
  proof (intro conjI ballI)
    show "tot_memory_allocated (fst (bump j n s, ?c))
        = kPageSize * of_nat (length (live_pages (snd (bump j n s, ?c))))
          + sum_list (map snd (huge_bufs (snd (bump j n s, ?c))))"
      using led by (simp add: ledger_inv_def algebra_simps)
  next
    fix b assume "b \<in> set (ranges (bump j n s, ?c))"
    then consider "b = huge_range (a, n * kHugepageSize)" | "b \<in> set (ranges (s, c))"
      by (auto simp: ranges_simps)
    then show "housed (shm_list (fst (bump j n s, ?c))) b"
      using new old by cases simp_all
  qed
qed

section \<open>Handed-out ranges stay apart\<close>

lemma pages_apart:
  "sorted_wrt apart (map (\<lambda>k. (u + k * 4096, 4096 :: nat)) [0..<n])"
proof -
  have "sorted_wrt (\<lambda>i k. apart (u + i * 4096, 4096) (u + k * 4096, 4096)) [0..<n]"
  proof (rule sorted_wrt_mono_rel [where P = "(<)"])
    show "sorted_wrt (<) [0..<n]" by (rule sorted_wrt_upt)
  next
    fix i k :: nat assume "i < k"
    then have "Suc i \<le> k" by simp
    then have "Suc i * 4096 \<le> k * 4096" by (rule mult_le_mono1)
    then show "apart (u + i * 4096, 4096) (u + k * 4096, 4096)"
      by (simp add: apart_def)
  qed
  then show ?thesis by (simp add: sorted_wrt_map)
qed

lemma disjoint_carve:
  assumes inv: "allocator_inv s" and led: "ledger_inv (s, c)"
    and empty: "page_freelist s = []" and ff: "first_free j s"
    and fit: "mappings_fit (shm_list s)" and dis: "mappings_disjoint (shm_list s)"
    and ap: "sorted_wrt apart (ranges (s, c))"
  shows "sorted_wrt apart
    (ranges (carve j s, c\<lparr>live_pages := page_at (cur_buf (shm_list s ! j)) 511 # live_pages c\<rparr>))"
proof -
  let ?r = "shm_list s ! j"
  let ?new = "map (\<lambda>k. page_range (page_at (cur_buf ?r) k)) [0..<512]"
  note j = first_free_one [OF ff]
  have rok: "region_ok ?r"
    using inv j(1) by (simp add: allocator_inv_def)
  note rfit = mappings_fit_nth [OF fit j(1)]
  have "?new = map (\<lambda>k. (unat (cur_buf ?r) + k * 4096, 4096)) [0..<512]"
    by (rule map_cong) (simp_all add: page_range_def unat_page_at [OF rok rfit j(2)])
  then have new: "sorted_wrt apart ?new"
    by (simp only: pages_apart)
  have cross: "apart x y" if "x \<in> set ?new" "y \<in> set (ranges (s, c))" for x y
  proof -
    from that(1) obtain k where "k < 512" "x = page_range (page_at (cur_buf ?r) k)"
      by auto
    with page_cut(1) [OF rok rfit j(2)] have "in_free_part x ?r" by simp
    moreover from led that(2) have "housed (shm_list s) y"
      by (simp add: ledger_inv_def)
    ultimately have "apart y x"
      using dis j(1) by (intro housed_apart_free_part)
    then show ?thesis by (rule apart_sym)
  qed
  have "ranges (carve j s, c\<lparr>live_pages := page_at (cur_buf ?r) 511 # live_pages c\<rparr>)
      = ?new @ ranges (s, c)"
    by (simp add: ranges_simps empty upt_512)
  then show ?thesis
    using new ap cross by (simp only: sorted_wrt_append) blast
qed

lemma disjoint_bump:
  assumes inv: "allocator_inv s" and led: "ledger_inv (s, c)"
    and j: "j < length (shm_list s)" and n: "n \<le> free_hugepages (shm_list s ! j)"
    and fit: "mappings_fit (shm_list s)" and dis: "mappings_disjoint (shm_list s)"
    and ap: "sorted_wrt apart (ranges (s, c))"
  shows "sorted_wrt apart
    (ranges (bump j n s,
       c\<lparr>huge_bufs := (cur_buf (shm_list s ! j), n * kHugepageSize) # huge_bufs c\<rparr>))"
proof -
  let ?r = "shm_list s ! j"
  let ?new = "huge_range (cur_buf ?r, n * kHugepageSize)"
  let ?c = "c\<lparr>huge_bufs := (cur_buf ?r, n * kHugepageSize) # huge_bufs c\<rparr>"
  have rok: "region_ok ?r"
    using inv j by (simp add: allocator_inv_def)
  note rfit = mappings_fit_nth [OF fit j]
  have "in_free_part (unat (cur_buf ?r) + 0, unat n * 2097152) ?r"
    by (rule cut_range(1) [OF rok rfit n]) simp
  then have free: "in_free_part ?new ?r"
    by (simp add: huge_range_def unat_bump_length [OF rok n])
  have cross: "apart ?new y" if "y \<in> set (ranges (s, c))" for y
  proof -
    from led that have "housed (shm_list s) y"
      by (simp add: ledger_inv_def)
    then have "apart y ?new"
      using dis j free by (intro housed_apart_free_part)
    then show ?thesis by (rule apart_sym)
  qed
  have "sorted_wrt apart (?new # ranges (s, c))"
    using ap cross by simp
  moreover have "mset (?new # ranges (s, c)) = mset (ranges (bump j n s, ?c))"
    by (simp add: ranges_simps)
  ultimately show ?thesis
    by (rule sorted_wrt_apart_perm [rotated])
qed

section \<open>One public operation\<close>

text \<open>
  The ledger's invariant holds after a call when the regions fit in the address space;
  the ranges handed out stay apart when moreover the regions are disjoint.
\<close>

lemma mappings_update [simp]:
  "mappings_fit (regs[i := popped n (regs ! i)]) = mappings_fit regs"
  "mappings_disjoint (regs[i := popped n (regs ! i)]) = mappings_disjoint regs"
  by (simp_all add: mappings_fit_def mappings_disjoint_def)

lemma alloc_page_ledger:
  assumes inv: "allocator_inv s" and led: "ledger_inv (s, c)"
    and ret: "alloc_page rs s = Returns (a, s')"
    and fit: "mappings_fit (shm_list s')"
  defines "c' \<equiv> (if a = 0 then c else c\<lparr>live_pages := a # live_pages c\<rparr>)"
  shows "ledger_inv (s', c')
    \<and> (mappings_disjoint (shm_list s') \<longrightarrow> sorted_wrt apart (ranges (s, c))
        \<longrightarrow> sorted_wrt apart (ranges (s', c')))"
proof -
  have carving: "ledger_inv (carve j t, c')
      \<and> (mappings_disjoint (shm_list (carve j t)) \<longrightarrow> sorted_wrt apart (ranges (t, c))
          \<longrightarrow> sorted_wrt apart (ranges (carve j t, c')))"
    if t: "allocator_inv t" "ledger_inv (t, c)" "page_freelist t = []" "first_free j t"
      "mappings_fit (shm_list (carve j t))" "a = page_at (cur_buf (shm_list t ! j)) 511"
    for t j
  proof -
    from t(5) have fit1: "mappings_fit (shm_list t)" by simp
    from ledger_inv_carve [OF t(1,2,3,4) fit1] t(6)
    have "a \<noteq> 0" and l: "ledger_inv (carve j t, c\<lparr>live_pages := a # live_pages c\<rparr>)"
      by simp_all
    then have c': "c' = c\<lparr>live_pages := a # live_pages c\<rparr>" by (simp add: c'_def)
    show ?thesis
      unfolding c' using l disjoint_carve [OF t(1,2,3,4) fit1] t(6) by simp
  qed
  from alloc_page_Returns [OF ret] show ?thesis
  proof (elim disjE conjE exE)
    assume fl: "page_freelist s \<noteq> []" and a: "a = last (page_freelist s)"
      and s': "s' = s\<lparr>page_freelist := butlast (page_freelist s),
          tot_memory_allocated := tot_memory_allocated s + kPageSize\<rparr>"
    have "page_range a \<in> set (ranges (s, c))"
      using fl a by (simp add: ranges_simps)
    with led have "housed (shm_list s) (page_range a)" by (simp add: ledger_inv_def)
    moreover have "\<forall>r \<in> set (shm_list s). region_ok r"
      using inv by (simp add: allocator_inv_def)
    ultimately have "0 < fst (page_range a)"
      by (rule housed_start)
    then have "a \<noteq> 0" by (auto simp: page_range_def)
    then have c': "c' = c\<lparr>live_pages := a # live_pages c\<rparr>" by (simp add: c'_def)
    have "map page_range (butlast (page_freelist s)) @ [page_range a]
        = map page_range (page_freelist s)"
      using fl a by (metis append_butlast_last_id list.simps(8,9) map_append)
    then have same: "ranges (s', c') = ranges (s, c)"
      by (simp add: s' c' ranges_simps)
    have "ledger_inv (s', c')"
      using led unfolding ledger_inv_def same
      by (simp add: s' c' algebra_simps)
    with same show ?thesis by simp
  next
    assume "a = 0" and s': "s' = s\<lparr>prev_allocation_size := prev_allocation_size s * 2\<rparr>"
    then have "c' = c" by (simp add: c'_def)
    with led show ?thesis
      by (simp add: s' ledger_inv_prev ranges_simps)
  next
    fix j
    assume "page_freelist s = []" "first_free j s"
      "a = page_at (cur_buf (shm_list s ! j)) 511" "s' = carve j s"
    with carving [of s j] inv led fit show ?thesis by simp
  next
    fix k buf j
    let ?t = "with_region (fresh_region k buf (prev_allocation_size s * 2))
      (s\<lparr>prev_allocation_size := prev_allocation_size s * 2\<rparr>)"
    assume empty: "page_freelist s = []" and buf: "buf \<noteq> 0"
      and *: "let s1 = ?t in first_free j s1 \<and> a = page_at (cur_buf (shm_list s1 ! j)) 511
          \<and> s' = carve j s1"
    have "request_shape (prev_allocation_size s * 2)"
      using inv by (intro request_shape_double) (simp add: allocator_inv_def)
    with inv have "allocator_inv (s\<lparr>prev_allocation_size := prev_allocation_size s * 2\<rparr>)"
      by (rule allocator_inv_prev)
    then have t1: "allocator_inv ?t"
      using region_ok_fresh [OF buf] by (rule allocator_inv_with_region)
    have t2: "ledger_inv (?t, c)"
      using led by (rule ledger_inv_grow)
    have t3: "page_freelist ?t = []"
      using empty by (simp add: with_region_def)
    have r: "ranges (?t, c) = ranges (s, c)"
      by (simp add: ranges_simps with_region_def)
    from * have "first_free j ?t" "a = page_at (cur_buf (shm_list ?t ! j)) 511"
      "s' = carve j ?t" by (simp_all add: Let_def)
    with carving [of ?t j] t1 t2 t3 fit r show ?thesis by simp
  qed
qed

lemma free_page_ledger:
  assumes led: "ledger_inv (s, c)" and ret: "free_page a s = Returns s'"
    and held: "a \<in> set (live_pages c)"
  defines "c' \<equiv> c\<lparr>live_pages := remove1 a (live_pages c)\<rparr>"
  shows "ledger_inv (s', c')
    \<and> (sorted_wrt apart (ranges (s, c)) \<longrightarrow> sorted_wrt apart (ranges (s', c')))"
proof -
  from ret have s': "s' = s\<lparr>page_freelist := page_freelist s @ [a],
      tot_memory_allocated := tot_memory_allocated s - kPageSize\<rparr>"
    by (simp add: free_page_Returns)
  have "add_mset a (mset (live_pages c) - {#a#}) = mset (live_pages c)"
    using held by (intro insert_DiffM) simp
  then have "add_mset (page_range a) (image_mset page_range (mset (live_pages c) - {#a#}))
      = image_mset page_range (mset (live_pages c))"
    by (metis image_mset_add_mset)
  then have m: "mset (ranges (s', c')) = mset (ranges (s, c))"
    by (simp add: s' c'_def ranges_simps)
  then have st: "set (ranges (s', c')) = set (ranges (s, c))"
    by (rule mset_eq_setD)
  have pos: "1 \<le> length (live_pages c)"
    using held by (cases "live_pages c") simp_all
  have len: "length (remove1 a (live_pages c)) = length (live_pages c) - 1"
    using held by (simp add: length_remove1)
  have "of_nat (length (live_pages c) - 1)
      = (of_nat (length (live_pages c)) - of_nat 1 :: size_t)"
    using pos by (rule of_nat_diff)
  then have e: "of_nat (length (live_pages c))
      = (of_nat (length (remove1 a (live_pages c))) + 1 :: size_t)"
    by (simp add: len)
  have "tot_memory_allocated s = kPageSize * of_nat (length (live_pages c))
      + sum_list (map snd (huge_bufs c))"
    using led by (simp add: ledger_inv_def)
  then have "tot_memory_allocated s' = kPageSize * of_nat (length (live_pages c'))
      + sum_list (map snd (huge_bufs c'))"
    unfolding e by (simp add: s' c'_def algebra_simps)
  moreover have "\<forall>b \<in> set (ranges (s', c')). housed (shm_list s') b"
    using led unfolding st by (simp add: ledger_inv_def s')
  ultimately have "ledger_inv (s', c')" by (simp add: ledger_inv_def)
  moreover have "sorted_wrt apart (ranges (s', c'))" if "sorted_wrt apart (ranges (s, c))"
    using m [symmetric] that by (rule sorted_wrt_apart_perm)
  ultimately show ?thesis by simp
qed

lemma round_up_request:
  assumes "kHugepageSize \<le> size0" and "size0 \<le> kMaxAllocSize"
  shows "round_up size0 div kHugepageSize \<noteq> 0"
    and "unat size0 \<le> unat (round_up size0)"
proof -
  have b: "unat size0 \<le> 2 ^ 38" "2097152 \<le> unat size0"
    using assms by (simp_all add: kMaxAllocSize_def kHugepageSize_def word_le_nat_alt)
  then have "unat size0 + 2097151 < 2 ^ 64" by simp
  from unat_round_up_ge(1) [OF this] show ge: "unat size0 \<le> unat (round_up size0)" .
  with b(2) have "0 < unat (round_up size0 div kHugepageSize) * 2097152"
    by (simp add: unat_round_up_div)
  then show "round_up size0 div kHugepageSize \<noteq> 0"
    by (auto simp: unat_eq_0)
qed

lemma alloc_huge_ledger:
  assumes inv: "allocator_inv s" and led: "ledger_inv (s, c)"
    and ret: "alloc_huge rs size0 s = Returns (a, s')"
    and fit: "mappings_fit (shm_list s')"
  defines "c' \<equiv> (if a = 0 then c else c\<lparr>huge_bufs := (a, round_up size0) # huge_bufs c\<rparr>)"
  shows "ledger_inv (s', c')
    \<and> (mappings_disjoint (shm_list s') \<longrightarrow> sorted_wrt apart (ranges (s, c))
        \<longrightarrow> sorted_wrt apart (ranges (s', c')))"
proof -
  define n where "n = round_up size0 div kHugepageSize"
  have nsz: "n * kHugepageSize = round_up size0"
    by (simp add: n_def round_up_div_mult)
  have bumping: "ledger_inv (bump j n t, c')
      \<and> (mappings_disjoint (shm_list (bump j n t)) \<longrightarrow> sorted_wrt apart (ranges (t, c))
          \<longrightarrow> sorted_wrt apart (ranges (bump j n t, c')))"
    if t: "allocator_inv t" "ledger_inv (t, c)" "j < length (shm_list t)"
      "n \<le> free_hugepages (shm_list t ! j)" "n \<noteq> 0"
      "mappings_fit (shm_list (bump j n t))" "a = cur_buf (shm_list t ! j)"
    for t j
  proof -
    from t(6) have fit1: "mappings_fit (shm_list t)" by simp
    from ledger_inv_bump [OF t(1,2,3,4,5) fit1] t(7)
    have "a \<noteq> 0"
      and l: "ledger_inv (bump j n t, c\<lparr>huge_bufs := (a, n * kHugepageSize) # huge_bufs c\<rparr>)"
      by simp_all
    then have c': "c' = c\<lparr>huge_bufs := (a, n * kHugepageSize) # huge_bufs c\<rparr>"
      by (simp add: c'_def nsz)
    show ?thesis
      unfolding c' using l disjoint_bump [OF t(1,2,3,4) fit1] t(7) by simp
  qed
  from alloc_huge_Returns [OF ret, folded n_def]
  have pre: "kHugepageSize \<le> size0" "size0 \<le> kMaxAllocSize" by simp_all
  from round_up_request(1) [OF pre] have n0: "n \<noteq> 0" by (simp add: n_def)
  from alloc_huge_Returns [OF ret, folded n_def] show ?thesis
  proof (elim disjE conjE exE)
    fix j assume "first_fit j n s" "a = cur_buf (shm_list s ! j)" "s' = bump j n s"
    with bumping [of s j] inv led fit n0 show ?thesis by (simp add: first_fit_def)
  next
    fix p assume "a = 0" and s': "s' = s\<lparr>prev_allocation_size := p\<rparr>"
    then have "c' = c" by (simp add: c'_def)
    with led show ?thesis
      by (simp add: s' ledger_inv_prev ranges_simps)
  next
    fix p k buf
    let ?t = "with_region (fresh_region k buf p) (s\<lparr>prev_allocation_size := p\<rparr>)"
    assume p: "double_while (prev_allocation_size s * 2) (round_up size0) = Some p"
      and buf: "buf \<noteq> 0" and nle: "n \<le> round_up p div kHugepageSize"
      and a: "a = buf" and s': "s' = bump (length (shm_list s)) n ?t"
    have "request_shape p"
      using double_while_shape [OF p] request_shape_double inv
      by (simp add: allocator_inv_def)
    with inv have "allocator_inv (s\<lparr>prev_allocation_size := p\<rparr>)"
      by (rule allocator_inv_prev)
    then have t1: "allocator_inv ?t"
      using region_ok_fresh [OF buf] by (rule allocator_inv_with_region)
    have t2: "ledger_inv (?t, c)"
      using led by (rule ledger_inv_grow)
    have r: "ranges (?t, c) = ranges (s, c)"
      by (simp add: ranges_simps with_region_def)
    have last: "shm_list ?t ! length (shm_list s) = fresh_region k buf p"
      "length (shm_list s) < length (shm_list ?t)"
      by (simp_all add: with_region_def)
    with nle a have "n \<le> free_hugepages (shm_list ?t ! length (shm_list s))"
      "a = cur_buf (shm_list ?t ! length (shm_list s))"
      by (simp_all add: fresh_region_def)
    with bumping [of ?t "length (shm_list s)"] t1 t2 last(2) n0 fit r s'
    show ?thesis by simp
  qed
qed

section \<open>The registry only grows\<close>

lemma regions_extend_refl: "regions_extend regs regs"
  by (simp add: regions_extend_def region_grows_def)

lemma regions_extend_trans:
  assumes "regions_extend xs ys" and "regions_extend ys zs"
  shows "regions_extend xs zs"
  unfolding regions_extend_def
proof (intro conjI allI impI)
  show "length xs \<le> length zs"
    using assms by (simp add: regions_extend_def)
next
  fix i assume i: "i < length xs"
  with assms(1) have a: "region_grows (xs ! i) (ys ! i)" and "i < length ys"
    by (simp_all add: regions_extend_def)
  with assms(2) have "region_grows (ys ! i) (zs ! i)"
    by (simp add: regions_extend_def)
  with a show "region_grows (xs ! i) (zs ! i)"
    by (auto simp: region_grows_def)
qed

lemma regions_extend_append: "regions_extend regs (regs @ extra)"
  by (simp add: regions_extend_def region_grows_def nth_append)

lemma regions_extend_update:
  assumes "i < length regs" and "n \<le> free_hugepages (regs ! i)"
  shows "regions_extend regs (regs[i := popped n (regs ! i)])"
  unfolding regions_extend_def
proof (intro conjI allI impI)
  show "length regs \<le> length (regs[i := popped n (regs ! i)])" by simp
next
  fix k assume "k < length regs"
  have "free_hugepages (regs ! i) - n \<le> free_hugepages (regs ! i)"
    using assms(2) by (simp add: word_le_nat_alt unat_free_minus)
  then show "region_grows (regs ! k) (regs[i := popped n (regs ! i)] ! k)"
    using assms(1) by (cases "k = i") (simp_all add: region_grows_def popped_def)
qed

lemma regions_extend_ranges:
  assumes "regions_extend regs regs'"
  shows "map region_range regs = take (length regs) (map region_range regs')"
proof (rule nth_equalityI)
  show "length (map region_range regs) = length (take (length regs) (map region_range regs'))"
    using assms by (simp add: regions_extend_def)
next
  fix i assume "i < length (map region_range regs)"
  with assms show "map region_range regs ! i
      = take (length regs) (map region_range regs') ! i"
    by (simp add: regions_extend_def region_grows_def region_range_def)
qed

lemma mappings_fit_earlier:
  assumes "regions_extend regs regs'" and "mappings_fit regs'"
  shows "mappings_fit regs"
proof -
  have "set (take (length regs) (map region_range regs')) \<subseteq> set (map region_range regs')"
    by (rule set_take_subset)
  with assms(2) show ?thesis
    unfolding mappings_fit_def regions_extend_ranges [OF assms(1)] list_all_iff
    by blast
qed

lemma mappings_disjoint_earlier:
  assumes "regions_extend regs regs'" and "mappings_disjoint regs'"
  shows "mappings_disjoint regs"
  using assms(2)
  unfolding mappings_disjoint_def regions_extend_ranges [OF assms(1)]
  by (rule sorted_wrt_take)

lemma regions_extend_alloc_page:
  assumes "alloc_page rs s = Returns (a, s')"
  shows "regions_extend (shm_list s) (shm_list s')"
proof -
  have carving: "regions_extend (shm_list t) (shm_list (carve j t))" if "first_free j t" for t j
    using first_free_one [OF that] by (simp add: regions_extend_update)
  from alloc_page_Returns [OF assms] show ?thesis
  proof (elim disjE conjE exE)
    assume "s' = s\<lparr>page_freelist := butlast (page_freelist s),
        tot_memory_allocated := tot_memory_allocated s + kPageSize\<rparr>"
    then show ?thesis by (simp add: regions_extend_refl)
  next
    assume "s' = s\<lparr>prev_allocation_size := prev_allocation_size s * 2\<rparr>"
    then show ?thesis by (simp add: regions_extend_refl)
  next
    fix j assume "first_free j s" "s' = carve j s"
    with carving [of j s] show ?thesis by simp
  next
    fix k buf j
    let ?t = "with_region (fresh_region k buf (prev_allocation_size s * 2))
      (s\<lparr>prev_allocation_size := prev_allocation_size s * 2\<rparr>)"
    assume "let s1 = ?t in first_free j s1 \<and> a = page_at (cur_buf (shm_list s1 ! j)) 511
          \<and> s' = carve j s1"
    then have "first_free j ?t" "s' = carve j ?t" by (simp_all add: Let_def)
    with carving [of j ?t] have "regions_extend (shm_list ?t) (shm_list s')" by simp
    moreover have "regions_extend (shm_list s) (shm_list ?t)"
      by (simp add: with_region_def regions_extend_append)
    ultimately show ?thesis by (rule regions_extend_trans [rotated])
  qed
qed

lemma regions_extend_alloc_huge:
  assumes "alloc_huge rs size0 s = Returns (a, s')"
  shows "regions_extend (shm_list s) (shm_list s')"
proof -
  define n where "n = round_up size0 div kHugepageSize"
  from alloc_huge_Returns [OF assms, folded n_def] show ?thesis
  proof (elim disjE conjE exE)
    fix j assume "first_fit j n s" "s' = bump j n s"
    then show ?thesis by (simp add: first_fit_def regions_extend_update)
  next
    fix p assume "s' = s\<lparr>prev_allocation_size := p\<rparr>"
    then show ?thesis by (simp add: regions_extend_refl)
  next
    fix p k buf
    let ?t = "with_region (fresh_region k buf p) (s\<lparr>prev_allocation_size := p\<rparr>)"
    assume nle: "n \<le> round_up p div kHugepageSize"
      and s': "s' = bump (length (shm_list s)) n ?t"
    have "regions_extend (shm_list ?t) (shm_list s')"
      unfolding s' bump_fields using nle
      by (intro regions_extend_update) (simp_all add: with_region_def fresh_region_def)
    moreover have "regions_extend (shm_list s) (shm_list ?t)"
      by (simp add: with_region_def regions_extend_append)
    ultimately show ?thesis by (rule regions_extend_trans [rotated])
  qed
qed

lemma regions_extend_step:
  assumes "step c \<sigma> = Returns \<sigma>'"
  shows "regions_extend (shm_list (fst \<sigma>)) (shm_list (fst \<sigma>'))"
proof (cases \<sigma>)
  case (Pair s cl)
  show ?thesis
  proof (cases c)
    case (Alloc_page rs)
    with assms Pair show ?thesis
      by (cases "alloc_page rs s") (auto dest: regions_extend_alloc_page)
  next
    case (Free_page a)
    with assms Pair show ?thesis
      by (cases "free_page a s") (auto simp: free_page_Returns regions_extend_refl)
  next
    case (Alloc_huge rs sz)
    with assms Pair show ?thesis
      by (cases "alloc_huge rs sz s") (auto dest: regions_extend_alloc_huge)
  qed
qed

lemma run_Cons_Returns:
  assumes "run (c # cs) \<sigma> = Returns \<sigma>'"
  obtains \<sigma>1 where "step c \<sigma> = Returns \<sigma>1" and "run cs \<sigma>1 = Returns \<sigma>'"
  using assms by (cases "step c \<sigma>") auto

lemma regions_extend_run:
  assumes "run cs \<sigma> = Returns \<sigma>'"
  shows "regions_extend (shm_list (fst \<sigma>)) (shm_list (fst \<sigma>'))"
  using assms
proof (induction cs arbitrary: \<sigma>)
  case Nil
  then show ?case by (simp add: regions_extend_refl)
next
  case (Cons c cs)
  from Cons.prems obtain \<sigma>1 where 1: "step c \<sigma> = Returns \<sigma>1" "run cs \<sigma>1 = Returns \<sigma>'"
    by (rule run_Cons_Returns)
  from regions_extend_step [OF 1(1)] Cons.IH [OF 1(2)] show ?case
    by (rule regions_extend_trans)
qed

section \<open>Sequences of operations keep the invariants\<close>

lemma step_ledger:
  assumes inv: "allocator_inv (fst \<sigma>)" and led: "ledger_inv \<sigma>"
    and ok: "permitted c (snd \<sigma>)" and st: "step c \<sigma> = Returns \<sigma>'"
    and fit: "mappings_fit (shm_list (fst \<sigma>'))"
  shows "ledger_inv \<sigma>'
    \<and> (mappings_disjoint (shm_list (fst \<sigma>')) \<longrightarrow> sorted_wrt apart (ranges \<sigma>)
        \<longrightarrow> sorted_wrt apart (ranges \<sigma>'))"
proof (cases \<sigma>)
  case (Pair s cl)
  show ?thesis
  proof (cases c)
    case (Alloc_page rs)
    with st Pair obtain a s' where r: "alloc_page rs s = Returns (a, s')"
      and \<sigma>': "\<sigma>' = (s', if a = 0 then cl else cl\<lparr>live_pages := a # live_pages cl\<rparr>)"
      by (cases "alloc_page rs s") auto
    from alloc_page_ledger [OF _ _ r, of cl] inv led fit show ?thesis
      by (simp add: Pair \<sigma>')
  next
    case (Free_page a)
    with st Pair obtain s' where r: "free_page a s = Returns s'"
      and \<sigma>': "\<sigma>' = (s', cl\<lparr>live_pages := remove1 a (live_pages cl)\<rparr>)"
      by (cases "free_page a s") auto
    from free_page_ledger [OF _ r, of cl] led ok show ?thesis
      by (simp add: Pair \<sigma>' Free_page)
  next
    case (Alloc_huge rs sz)
    with st Pair obtain a s' where r: "alloc_huge rs sz s = Returns (a, s')"
      and \<sigma>': "\<sigma>' = (s', if a = 0 then cl
          else cl\<lparr>huge_bufs := (a, round_up sz) # huge_bufs cl\<rparr>)"
      by (cases "alloc_huge rs sz s") auto
    from alloc_huge_ledger [OF _ _ r, of cl] inv led fit show ?thesis
      by (simp add: Pair \<sigma>')
  qed
qed

lemma run_ledger:
  assumes "allocator_inv (fst \<sigma>)" and "ledger_inv \<sigma>"
    and "disciplined cs \<sigma>" and "run cs \<sigma> = Returns \<sigma>'"
    and "mappings_fit (shm_list (fst \<sigma>'))"
  shows "ledger_inv \<sigma>'
    \<and> (mappings_disjoint (shm_list (fst \<sigma>')) \<longrightarrow> sorted_wrt apart (ranges \<sigma>)
        \<longrightarrow> sorted_wrt apart (ranges \<sigma>'))"
  using assms
proof (induction cs arbitrary: \<sigma>)
  case Nil
  then show ?case by simp
next
  case (Cons c cs)
  from Cons.prems(4) obtain \<sigma>1 where 1: "step c \<sigma> = Returns \<sigma>1" "run cs \<sigma>1 = Returns \<sigma>'"
    by (rule run_Cons_Returns)
  from Cons.prems(3) 1(1) have ok: "permitted c (snd \<sigma>)" and d: "disciplined cs \<sigma>1"
    by simp_all
  note ext = regions_extend_run [OF 1(2)]
  have fit1: "mappings_fit (shm_list (fst \<sigma>1))"
    using ext Cons.prems(5) by (rule mappings_fit_earlier)
  from step_ledger [OF Cons.prems(1,2) ok 1(1) fit1]
  have l1: "ledger_inv \<sigma>1"
    and a1: "mappings_disjoint (shm_list (fst \<sigma>1)) \<Longrightarrow> sorted_wrt apart (ranges \<sigma>)
      \<Longrightarrow> sorted_wrt apart (ranges \<sigma>1)"
    by simp_all
  from Cons.IH [OF allocator_inv_step [OF Cons.prems(1) 1(1)] l1 d 1(2) Cons.prems(5)]
  have l': "ledger_inv \<sigma>'"
    and a': "mappings_disjoint (shm_list (fst \<sigma>')) \<Longrightarrow> sorted_wrt apart (ranges \<sigma>1)
      \<Longrightarrow> sorted_wrt apart (ranges \<sigma>')"
    by simp_all
  show ?case
  proof (intro conjI impI)
    show "ledger_inv \<sigma>'" by (rule l')
  next
    assume dis: "mappings_disjoint (shm_list (fst \<sigma>'))" and ap: "sorted_wrt apart (ranges \<sigma>)"
    from ext dis have "mappings_disjoint (shm_list (fst \<sigma>1))"
      by (rule mappings_disjoint_earlier)
    from a' [OF dis a1 [OF this ap]] show "sorted_wrt apart (ranges \<sigma>')" .
  qed
qed

lemma ctor_Returns:
  assumes "HugeAllocator_ctor M rs init numa = Returns s"
  defines "e \<equiv> \<lparr>numa_node = numa, shm_list = [], page_freelist = [],
    tot_free_hugepages = 0, prev_allocation_size = init, tot_memory_reserved = 0,
    tot_memory_allocated = 0\<rparr>"
  shows "0 < init \<and> init \<le> kMaxAllocSize \<and> numa \<le> M \<and>
    ((kernel_answer rs = Some ENOMEM \<and> s = e)
     \<or> (\<exists>k buf. buf \<noteq> 0 \<and> kernel_answer rs = Some (Shm_created buf 0) \<and>
          s = with_region (fresh_region k buf init) e))"
proof -
  from assms(1) have pre: "0 < init" "init \<le> kMaxAllocSize" "numa \<le> M"
    by (auto simp: HugeAllocator_ctor_def split: if_splits)
  from assms(1) obtain ok where res: "reserve_hugepages rs init numa e = Returns (ok, s)"
    unfolding HugeAllocator_ctor_def e_def [symmetric]
    by (cases "reserve_hugepages rs init numa e") (auto split: if_splits)
  show ?thesis
  proof (cases ok)
    case True
    with res have "reserve_hugepages rs init numa e = Returns (True, s)" by simp
    from reserve_hugepages_True [OF this] pre show ?thesis by blast
  next
    case False
    with res pre show ?thesis by (simp add: reserve_hugepages_False)
  qed
qed

lemma ledger_inv_ctor:
  assumes "HugeAllocator_ctor M rs init numa = Returns s"
  shows "ledger_inv (s, new_client)" and "ranges (s, new_client) = []"
proof -
  from ctor_Returns [OF assms]
  have "page_freelist s = [] \<and> tot_memory_allocated s = 0"
    by (auto simp: with_region_def)
  then show "ledger_inv (s, new_client)" and "ranges (s, new_client) = []"
    by (simp_all add: ledger_inv_def ranges_simps new_client_def)
qed

text \<open>Every state that a constructed allocator reaches.\<close>

lemma reachable_allocator_inv:
  assumes "HugeAllocator_ctor M rs init numa = Returns s0"
    and "run cs (s0, new_client) = Returns \<sigma>"
  shows "allocator_inv (fst \<sigma>)"
  using allocator_inv_run [OF _ assms(2)] allocator_inv_ctor [OF assms(1)] by simp

lemma reachable_ledger_inv:
  assumes "HugeAllocator_ctor M rs init numa = Returns s0"
    and "run cs (s0, new_client) = Returns \<sigma>"
    and "disciplined cs (s0, new_client)"
    and "mappings_fit (shm_list (fst \<sigma>))"
  shows "ledger_inv \<sigma>"
    and "mappings_disjoint (shm_list (fst \<sigma>)) \<Longrightarrow> sorted_wrt apart (ranges \<sigma>)"
proof -
  have "allocator_inv (fst (s0, new_client))"
    using allocator_inv_ctor [OF assms(1)] by simp
  from run_ledger [OF this ledger_inv_ctor(1) [OF assms(1)] assms(3,2,4)]
  show "ledger_inv \<sigma>"
    and "mappings_disjoint (shm_list (fst \<sigma>)) \<Longrightarrow> sorted_wrt apart (ranges \<sigma>)"
    by (simp_all add: ledger_inv_ctor(2) [OF assms(1)])
qed

lemma run_append: "run (cs @ cs') \<sigma> = and_then (run cs \<sigma>) (run cs')"
proof (induction cs arbitrary: \<sigma>)
  case Nil
  show ?case by simp
next
  case (Cons c cs)
  show ?case by (cases "step c \<sigma>") (simp_all add: Cons.IH)
qed

lemma disciplined_append:
  "disciplined (cs @ cs') \<sigma> \<longleftrightarrow>
     disciplined cs \<sigma> \<and>
     (case run cs \<sigma> of Returns \<sigma>' \<Rightarrow> disciplined cs' \<sigma>' | Fatal e \<Rightarrow> True | Diverges \<Rightarrow> True)"
proof (induction cs arbitrary: \<sigma>)
  case Nil
  show ?case by simp
next
  case (Cons c cs)
  show ?case by (cases "step c \<sigma>") (simp_all add: Cons.IH)
qed

section \<open>The sample session, step by step\<close>

lemma sample_ctor:
  "HugeAllocator_ctor 8 [(5, Shm_created 0x40000000 0)] 2097152 0 = Returns sample_start"
  by (simp add: HugeAllocator_ctor_def reserve_hugepages_def shm_region_t_def round_up_def
      kMaxAllocSize_def kHugepageSize_def sample_start_def)

lemma upt_511: "[0..<511] = [0..<510] @ [510::nat]"
  using upt_Suc_append [of 0 510] by simp

lemma sample_run_pages:
  "run sample_pages (sample_start, new_client) = Returns (sample_mid, sample_mid_client)"
  by (simp add: sample_pages_def sample_start_def sample_mid_def sample_mid_client_def
      new_client_def alloc_page_def free_page_def pop_hugepages_def push_pages_eq
      upt_512 upt_511 butlast_append kPageSize_def kHugepageSize_def)

lemma sample_run_huge:
  "run sample_huge (sample_mid, sample_mid_client) = Returns (sample_end, sample_end_client)"
  by (simp add: sample_huge_def sample_mid_def sample_mid_client_def sample_end_def
      sample_end_client_def alloc_huge_def reserve_hugepages_def shm_region_t_def
      pop_hugepages_def round_up_def double_while.simps kMaxAllocSize_def kHugepageSize_def)

lemma sample_run:
  "run (sample_pages @ sample_huge) (sample_start, new_client)
     = Returns (sample_end, sample_end_client)"
  by (simp add: run_append sample_run_pages sample_run_huge)

lemma sample_run_full:
  "run [Alloc_huge [] 2097152] (sample_start, new_client)
     = Returns (sample_full, sample_full_client)"
  by (simp add: sample_start_def sample_full_def sample_full_client_def new_client_def
      alloc_huge_def pop_hugepages_def round_up_def kMaxAllocSize_def kHugepageSize_def)

lemma sample_disciplined:
  "disciplined (sample_pages @ sample_huge) (sample_start, new_client)"
proof -
  have "disciplined sample_pages (sample_start, new_client)"
    by (simp add: sample_pages_def sample_start_def new_client_def alloc_page_def
        free_page_def pop_hugepages_def push_pages_eq upt_512 upt_511 butlast_append
        kPageSize_def kHugepageSize_def)
  moreover have "disciplined sample_huge (sample_mid, sample_mid_client)"
    by (simp add: sample_huge_def split: outcome.split)
  ultimately show ?thesis
    by (simp add: disciplined_append sample_run_pages)
qed

lemma sample_mappings:
  "mappings_fit (shm_list sample_end)" "mappings_disjoint (shm_list sample_end)"
  by (simp_all add: mappings_fit_def mappings_disjoint_def sample_end_def region_range_def
      apart_def)

lemma uneven_alloc_huge:
  "alloc_huge [(7, Shm_created 0x80000000 0)] 5452595 uneven_start
     = Returns (0x80000000, uneven_end)"
  by (simp add: alloc_huge_def uneven_start_def uneven_end_def reserve_hugepages_def
      shm_region_t_def pop_hugepages_def round_up_def double_while.simps
      kMaxAllocSize_def kHugepageSize_def)

lemma sample_full_out_of_memory:
  "alloc_page [(11, ENOMEM)] sample_full
     = Returns (0, sample_full\<lparr>prev_allocation_size := 4194304\<rparr>)"
  by (simp add: alloc_page_def sample_full_def reserve_hugepages_def)

section \<open>Construction when the kernel is out of hugepages\<close>

text \<open>
  Claim C1. When the first \<open>reserve_hugepages\<close> reports out of memory, the caller should
  see the construction fail. The constructor drops the result of \<open>reserve_hugepages\<close>:
  for every admissible \<open>initial_size\<close> and \<open>numa_node\<close> and every script whose answer is
  \<open>ENOMEM\<close>, it returns an allocator without any region and with no reserved memory.
\<close>

theorem ctor_returns_without_memory:
  assumes "0 < initial_size" and "initial_size \<le> kMaxAllocSize" and "numa \<le> M"
    and "kernel_answer rs = Some ENOMEM"
  shows "HugeAllocator_ctor M rs initial_size numa =
     Returns \<lparr>numa_node = numa, shm_list = [], page_freelist = [],
       tot_free_hugepages = 0, prev_allocation_size = initial_size,
       tot_memory_reserved = 0, tot_memory_allocated = 0\<rparr>"
proof -
  let ?e = "\<lparr>numa_node = numa, shm_list = [], page_freelist = [],
       tot_free_hugepages = 0, prev_allocation_size = initial_size,
       tot_memory_reserved = 0, tot_memory_allocated = 0\<rparr>"
  have "reserve_hugepages rs initial_size numa ?e = Returns (False, ?e)"
    using assms(4) by (simp add: reserve_hugepages_False)
  with assms(1,2,3) show ?thesis
    by (simp add: HugeAllocator_ctor_def)
qed

theorem ctor_returns_without_memory_witness:
  "(0 :: size_t) < 2097152 \<and> (2097152 :: size_t) \<le> kMaxAllocSize \<and> (0 :: size_t) \<le> 8
   \<and> kernel_answer [(5, ENOMEM)] = Some ENOMEM
   \<and> HugeAllocator_ctor 8 [(5, ENOMEM)] 2097152 0 =
       Returns \<lparr>numa_node = 0, shm_list = [], page_freelist = [],
         tot_free_hugepages = 0, prev_allocation_size = 2097152,
         tot_memory_reserved = 0, tot_memory_allocated = 0\<rparr>"
proof -
  have h: "(0 :: size_t) < 2097152" "(2097152 :: size_t) \<le> kMaxAllocSize"
    "(0 :: size_t) \<le> 8" "kernel_answer [(5, ENOMEM)] = Some ENOMEM"
    by (simp_all add: kMaxAllocSize_def kernel_answer_def)
  from ctor_returns_without_memory [OF h] h show ?thesis by simp
qed

section \<open>Null returns\<close>

lemma first_fit_not_no_fit:
  assumes "first_fit j n s"
  shows "\<not> no_fit n s"
proof
  assume "no_fit n s"
  moreover from assms have "shm_list s ! j \<in> set (shm_list s)"
    by (simp add: first_fit_def)
  ultimately have "\<not> n \<le> free_hugepages (shm_list s ! j)"
    by (simp add: no_fit_def list_all_iff)
  with assms show False by (simp add: first_fit_def)
qed

lemma cur_buf_nonnull:
  assumes "region_ok r" and "unat (base_buf r) + unat (size_r r) < 2 ^ 64"
  shows "cur_buf r \<noteq> 0"
proof -
  from assms(1) have "base_buf r \<noteq> 0" by (simp add: region_ok_def)
  then have "0 < unat (base_buf r)" by (simp add: unat_gt_0)
  with unat_cur_buf [OF assms] have "0 < unat (cur_buf r)" by simp
  then show ?thesis by (simp add: unat_gt_0)
qed

lemma page_at_nonnull:
  assumes "region_ok r" and "unat (base_buf r) + unat (size_r r) < 2 ^ 64"
    and "1 \<le> free_hugepages r" and "k < 512"
  shows "page_at (cur_buf r) k \<noteq> 0"
proof -
  from cur_buf_nonnull [OF assms(1,2)] have "0 < unat (cur_buf r)"
    by (simp add: unat_gt_0)
  with unat_page_at [OF assms] have "0 < unat (page_at (cur_buf r) k)" by simp
  then show ?thesis by (simp add: unat_gt_0)
qed

lemma carve_nonnull:
  assumes inv: "allocator_inv s" and nn: "0 \<notin> set (page_freelist s)"
    and ff: "first_free j s" and fit: "mappings_fit (shm_list s)"
  shows "page_at (cur_buf (shm_list s ! j)) 511 \<noteq> 0"
    and "0 \<notin> set (page_freelist (carve j s))"
proof -
  let ?r = "shm_list s ! j"
  note j = first_free_one [OF ff]
  have rok: "region_ok ?r"
    using inv j(1) by (simp add: allocator_inv_def)
  note rfit = mappings_fit_nth [OF fit j(1)]
  have page: "page_at (cur_buf ?r) k \<noteq> 0" if "k < 512" for k
    using rok rfit j(2) that by (rule page_at_nonnull)
  from page [of 511] show "page_at (cur_buf ?r) 511 \<noteq> 0" by simp
  have "0 \<notin> page_at (cur_buf ?r) ` {0..<511}"
  proof
    assume "0 \<in> page_at (cur_buf ?r) ` {0..<511}"
    then obtain k where "k < 511" "page_at (cur_buf ?r) k = 0" by auto
    with page [of k] show False by simp
  qed
  with nn show "0 \<notin> set (page_freelist (carve j s))" by simp
qed

lemma alloc_page_null:
  assumes inv: "allocator_inv s" and nn: "0 \<notin> set (page_freelist s)"
    and ret: "alloc_page rs s = Returns (a, s')"
    and fit: "mappings_fit (shm_list s')"
  shows "a = 0 \<longleftrightarrow>
     page_freelist s = [] \<and> tot_free_hugepages s = 0 \<and> kernel_answer rs = Some ENOMEM"
    and "a = 0 \<longrightarrow> s' = s\<lparr>prev_allocation_size := prev_allocation_size s * 2\<rparr>"
    and "0 \<notin> set (page_freelist s')"
proof -
  from alloc_page_Returns [OF ret]
  have "(a = 0 \<longleftrightarrow>
     page_freelist s = [] \<and> tot_free_hugepages s = 0 \<and> kernel_answer rs = Some ENOMEM)
     \<and> (a = 0 \<longrightarrow> s' = s\<lparr>prev_allocation_size := prev_allocation_size s * 2\<rparr>)
     \<and> 0 \<notin> set (page_freelist s')"
  proof (elim disjE conjE exE)
    assume fl: "page_freelist s \<noteq> []" and a: "a = last (page_freelist s)"
      and s': "s' = s\<lparr>page_freelist := butlast (page_freelist s),
                 tot_memory_allocated := tot_memory_allocated s + kPageSize\<rparr>"
    from fl a have "a \<in> set (page_freelist s)" by simp
    with nn have "a \<noteq> 0" by auto
    moreover have "0 \<notin> set (page_freelist s')"
      using nn by (auto simp: s' dest: in_set_butlastD)
    ultimately show ?thesis using fl by simp
  next
    assume "page_freelist s = []" "tot_free_hugepages s = 0"
      "kernel_answer rs = Some ENOMEM" "a = 0"
      "s' = s\<lparr>prev_allocation_size := prev_allocation_size s * 2\<rparr>"
    then show ?thesis by simp
  next
    fix j
    assume e: "page_freelist s = []" and nz: "tot_free_hugepages s \<noteq> 0"
      and ff: "first_free j s" and a: "a = page_at (cur_buf (shm_list s ! j)) 511"
      and s': "s' = carve j s"
    from fit have "mappings_fit (shm_list s)" by (simp add: s')
    from carve_nonnull [OF inv nn ff this] a s' nz show ?thesis by simp
  next
    fix k buf j
    let ?t = "with_region (fresh_region k buf (prev_allocation_size s * 2))
      (s\<lparr>prev_allocation_size := prev_allocation_size s * 2\<rparr>)"
    assume empty: "page_freelist s = []" and buf: "buf \<noteq> 0"
      and ka: "kernel_answer rs = Some (Shm_created buf 0)"
      and *: "let s1 = ?t in first_free j s1 \<and> a = page_at (cur_buf (shm_list s1 ! j)) 511
          \<and> s' = carve j s1"
    have "request_shape (prev_allocation_size s * 2)"
      using inv by (intro request_shape_double) (simp add: allocator_inv_def)
    with inv have "allocator_inv (s\<lparr>prev_allocation_size := prev_allocation_size s * 2\<rparr>)"
      by (rule allocator_inv_prev)
    then have t1: "allocator_inv ?t"
      using region_ok_fresh [OF buf] by (rule allocator_inv_with_region)
    have t3: "0 \<notin> set (page_freelist ?t)"
      using empty by (simp add: with_region_def)
    from * have ff: "first_free j ?t" and a: "a = page_at (cur_buf (shm_list ?t ! j)) 511"
      and s': "s' = carve j ?t" by (simp_all add: Let_def)
    from fit have "mappings_fit (shm_list ?t)" by (simp add: s')
    from carve_nonnull [OF t1 t3 ff this] a s' ka show ?thesis by simp
  qed
  then show "a = 0 \<longleftrightarrow>
     page_freelist s = [] \<and> tot_free_hugepages s = 0 \<and> kernel_answer rs = Some ENOMEM"
    and "a = 0 \<longrightarrow> s' = s\<lparr>prev_allocation_size := prev_allocation_size s * 2\<rparr>"
    and "0 \<notin> set (page_freelist s')"
    by simp_all
qed

lemma alloc_huge_null:
  assumes inv: "allocator_inv s"
    and ret: "alloc_huge rs size0 s = Returns (a, s')"
    and fit: "mappings_fit (shm_list s')"
  shows "a = 0 \<longleftrightarrow>
     no_fit (round_up size0 div kHugepageSize) s \<and> kernel_answer rs = Some ENOMEM"
    and "a = 0 \<longrightarrow> s' = s\<lparr>prev_allocation_size := prev_allocation_size s'\<rparr>"
    and "page_freelist s' = page_freelist s"
proof -
  define n where "n = round_up size0 div kHugepageSize"
  from alloc_huge_Returns [OF ret, folded n_def]
  have "(a = 0 \<longleftrightarrow> no_fit n s \<and> kernel_answer rs = Some ENOMEM)
     \<and> (a = 0 \<longrightarrow> s' = s\<lparr>prev_allocation_size := prev_allocation_size s'\<rparr>)
     \<and> page_freelist s' = page_freelist s"
  proof (elim disjE conjE exE)
    fix j
    assume ff: "first_fit j n s" and a: "a = cur_buf (shm_list s ! j)"
      and s': "s' = bump j n s"
    from ff have j: "j < length (shm_list s)"
      by (simp add: first_fit_def)
    from fit have "mappings_fit (shm_list s)" by (simp add: s')
    from this j have "unat (base_buf (shm_list s ! j)) + unat (size_r (shm_list s ! j)) < 2 ^ 64"
      by (rule mappings_fit_nth)
    moreover have "region_ok (shm_list s ! j)"
      using inv j by (simp add: allocator_inv_def)
    ultimately have "a \<noteq> 0"
      unfolding a by (intro cur_buf_nonnull)
    with first_fit_not_no_fit [OF ff] s' show ?thesis by simp
  next
    fix p
    assume "no_fit n s" "kernel_answer rs = Some ENOMEM" "a = 0"
      "s' = s\<lparr>prev_allocation_size := p\<rparr>"
    then show ?thesis by simp
  next
    fix p k buf
    assume "buf \<noteq> 0" "kernel_answer rs = Some (Shm_created buf 0)" "a = buf"
      "s' = bump (length (shm_list s)) n
             (with_region (fresh_region k buf p) (s\<lparr>prev_allocation_size := p\<rparr>))"
    then show ?thesis by (simp add: with_region_def)
  qed
  then show "a = 0 \<longleftrightarrow>
     no_fit (round_up size0 div kHugepageSize) s \<and> kernel_answer rs = Some ENOMEM"
    and "a = 0 \<longrightarrow> s' = s\<lparr>prev_allocation_size := prev_allocation_size s'\<rparr>"
    and "page_freelist s' = page_freelist s"
    by (simp_all add: n_def)
qed

lemma step_no_null:
  assumes inv: "allocator_inv (fst \<sigma>)" and nn: "0 \<notin> set (page_freelist (fst \<sigma>))"
    and c: "c \<noteq> Free_page 0"
    and st: "step c \<sigma> = Returns \<sigma>'"
    and fit: "mappings_fit (shm_list (fst \<sigma>'))"
  shows "0 \<notin> set (page_freelist (fst \<sigma>'))"
proof (cases \<sigma>)
  case (Pair s cl)
  show ?thesis
  proof (cases c)
    case (Alloc_page rs)
    with st Pair obtain a s' where r: "alloc_page rs s = Returns (a, s')" and s': "fst \<sigma>' = s'"
      by (cases "alloc_page rs s") auto
    from alloc_page_null(3) [OF _ _ r] inv nn fit Pair s' show ?thesis by simp
  next
    case (Free_page a)
    with st Pair obtain s' where r: "free_page a s = Returns s'" and s': "fst \<sigma>' = s'"
      by (cases "free_page a s") auto
    from c Free_page have "a \<noteq> 0" by simp
    with r nn Pair s' show ?thesis by (auto simp: free_page_Returns)
  next
    case (Alloc_huge rs sz)
    with st Pair obtain a s' where r: "alloc_huge rs sz s = Returns (a, s')" and s': "fst \<sigma>' = s'"
      by (cases "alloc_huge rs sz s") auto
    from alloc_huge_null(3) [OF _ r] inv nn fit Pair s' show ?thesis by simp
  qed
qed

lemma run_no_null:
  assumes "allocator_inv (fst \<sigma>)" and "0 \<notin> set (page_freelist (fst \<sigma>))"
    and "never_frees_null cs"
    and "run cs \<sigma> = Returns \<sigma>'"
    and "mappings_fit (shm_list (fst \<sigma>'))"
  shows "0 \<notin> set (page_freelist (fst \<sigma>'))"
  using assms
proof (induction cs arbitrary: \<sigma>)
  case Nil
  then show ?case by simp
next
  case (Cons c cs)
  from Cons.prems(4) obtain \<sigma>1 where 1: "step c \<sigma> = Returns \<sigma>1" "run cs \<sigma>1 = Returns \<sigma>'"
    by (rule run_Cons_Returns)
  from Cons.prems(3) have c: "c \<noteq> Free_page 0" and cs: "never_frees_null cs"
    by (simp_all add: never_frees_null_def)
  from regions_extend_run [OF 1(2)] Cons.prems(5) have fit1: "mappings_fit (shm_list (fst \<sigma>1))"
    by (rule mappings_fit_earlier)
  from Cons.prems(1) 1(1) have inv1: "allocator_inv (fst \<sigma>1)"
    by (rule allocator_inv_step)
  from Cons.prems(1,2) c 1(1) fit1 have "0 \<notin> set (page_freelist (fst \<sigma>1))"
    by (rule step_no_null)
  from Cons.IH [OF inv1 this cs 1(2) Cons.prems(5)] show ?case .
qed

lemma reachable_no_null:
  assumes "HugeAllocator_ctor M rs init numa = Returns s0"
    and "run cs (s0, new_client) = Returns \<sigma>"
    and "never_frees_null cs"
    and "mappings_fit (shm_list (fst \<sigma>))"
  shows "0 \<notin> set (page_freelist (fst \<sigma>))"
proof -
  have inv: "allocator_inv (fst (s0, new_client))"
    using allocator_inv_ctor [OF assms(1)] by simp
  from ctor_Returns [OF assms(1)]
  have "page_freelist s0 = []"
    by (auto simp: with_region_def)
  then have "0 \<notin> set (page_freelist (fst (s0, new_client)))" by simp
  from run_no_null [OF inv this assms(3,2,4)] show ?thesis .
qed

text \<open>
  Claim C2, as amended. Take a state that a constructed allocator reaches by public
  operations of a caller that never passes the null address to \<open>free_page\<close>, with
  regions below the top of the address space. A returning \<open>alloc_page\<close> returns null
  exactly when it had to reserve (empty freelist, no free hugepage) and the kernel
  answered \<open>ENOMEM\<close>; a returning \<open>alloc_huge\<close> returns null exactly when no region had
  enough free hugepages and the kernel answered \<open>ENOMEM\<close>. After a null return the
  allocator is as it was before the call except for \<open>prev_allocation_size\<close>, and it
  still takes back a page and hands it out again.
\<close>

theorem null_only_when_out_of_hugepages:
  assumes "HugeAllocator_ctor M rs0 initial_size numa = Returns s0"
    and "run cs (s0, new_client) = Returns (s, c)"
    and "never_frees_null cs"
  shows "(alloc_page rs s = Returns (a, s') \<and> mappings_fit (shm_list s')
            \<longrightarrow> (a = 0 \<longleftrightarrow> page_freelist s = [] \<and> tot_free_hugepages s = 0
                              \<and> kernel_answer rs = Some ENOMEM)
                \<and> (a = 0 \<longrightarrow> s' = s\<lparr>prev_allocation_size := prev_allocation_size s * 2\<rparr>)
                \<and> (a = 0 \<and> p mod 4096 = 0
                     \<longrightarrow> (\<exists>u. free_page p s' = Returns u
                              \<and> alloc_page rs2 u = Returns (p, s'))))
       \<and> (alloc_huge rs' sz s = Returns (b, s'') \<and> mappings_fit (shm_list s'')
            \<longrightarrow> (b = 0 \<longleftrightarrow> no_fit (round_up sz div kHugepageSize) s
                              \<and> kernel_answer rs' = Some ENOMEM)
                \<and> (b = 0 \<longrightarrow> s'' = s\<lparr>prev_allocation_size := prev_allocation_size s''\<rparr>)
                \<and> (b = 0 \<and> p mod 4096 = 0
                     \<longrightarrow> (\<exists>u. free_page p s'' = Returns u
                              \<and> alloc_page rs2 u = Returns (p, s''))))"
proof -
  have inv: "allocator_inv s"
    using reachable_allocator_inv [OF assms(1,2)] by simp
  have nn: "0 \<notin> set (page_freelist s)" if "mappings_fit (shm_list s)"
    using reachable_no_null [OF assms(1,2,3)] that by simp
  have cycle: "\<exists>u. free_page p t = Returns u \<and> alloc_page rs2 u = Returns (p, t)"
    if "p mod 4096 = 0" for t
    using that by (simp add: free_page_def alloc_page_def)
  have page: "(a = 0 \<longleftrightarrow> page_freelist s = [] \<and> tot_free_hugepages s = 0
                              \<and> kernel_answer rs = Some ENOMEM)
      \<and> (a = 0 \<longrightarrow> s' = s\<lparr>prev_allocation_size := prev_allocation_size s * 2\<rparr>)"
    if ret: "alloc_page rs s = Returns (a, s')" and fit: "mappings_fit (shm_list s')"
  proof -
    from regions_extend_alloc_page [OF ret] fit have "mappings_fit (shm_list s)"
      by (rule mappings_fit_earlier)
    note l = nn [OF this]
    from alloc_page_null(1,2) [OF inv l ret fit] show ?thesis by simp
  qed
  have huge: "(b = 0 \<longleftrightarrow> no_fit (round_up sz div kHugepageSize) s
                              \<and> kernel_answer rs' = Some ENOMEM)
      \<and> (b = 0 \<longrightarrow> s'' = s\<lparr>prev_allocation_size := prev_allocation_size s''\<rparr>)"
    if ret: "alloc_huge rs' sz s = Returns (b, s'')" and fit: "mappings_fit (shm_list s'')"
    using alloc_huge_null(1,2) [OF inv ret fit] by simp
  show ?thesis
  proof (intro conjI impI)
    assume "alloc_page rs s = Returns (a, s') \<and> mappings_fit (shm_list s')"
    then have "alloc_page rs s = Returns (a, s')" "mappings_fit (shm_list s')"
      by simp_all
    from page [OF this]
    show "a = 0 \<longleftrightarrow> page_freelist s = [] \<and> tot_free_hugepages s = 0
        \<and> kernel_answer rs = Some ENOMEM"
      and "a = 0 \<Longrightarrow> s' = s\<lparr>prev_allocation_size := prev_allocation_size s * 2\<rparr>"
      by simp_all
  next
    assume "alloc_huge rs' sz s = Returns (b, s'') \<and> mappings_fit (shm_list s'')"
    then have "alloc_huge rs' sz s = Returns (b, s'')" "mappings_fit (shm_list s'')"
      by simp_all
    from huge [OF this]
    show "b = 0 \<longleftrightarrow> no_fit (round_up sz div kHugepageSize) s
        \<and> kernel_answer rs' = Some ENOMEM"
      and "b = 0 \<Longrightarrow> s'' = s\<lparr>prev_allocation_size := prev_allocation_size s''\<rparr>"
      by simp_all
  next
    assume "a = 0 \<and> p mod 4096 = 0"
    then show "\<exists>u. free_page p s' = Returns u \<and> alloc_page rs2 u = Returns (p, s')"
      by (intro cycle) simp
  next
    assume "b = 0 \<and> p mod 4096 = 0"
    then show "\<exists>u. free_page p s'' = Returns u \<and> alloc_page rs2 u = Returns (p, s'')"
      by (intro cycle) simp
  qed
qed

theorem null_only_when_out_of_hugepages_witness:
  "HugeAllocator_ctor 8 [(5, Shm_created 0x40000000 0)] 2097152 0 = Returns sample_start
   \<and> run sample_pages (sample_start, new_client) = Returns (sample_mid, sample_mid_client)
   \<and> never_frees_null sample_pages
   \<and> alloc_page [] sample_mid
       = Returns (0x401FF000,
           sample_mid\<lparr>page_freelist := map (\<lambda>k. 0x40000000 + of_nat k * 4096) [0..<510],
             tot_memory_allocated := 8192\<rparr>)
   \<and> mappings_fit (shm_list sample_mid)
   \<and> \<not> (page_freelist sample_mid = [] \<and> tot_free_hugepages sample_mid = 0
          \<and> kernel_answer [] = Some ENOMEM)
   \<and> alloc_huge [(11, ENOMEM)] 2097152 sample_mid
       = Returns (0, sample_mid\<lparr>prev_allocation_size := 4194304\<rparr>)
   \<and> no_fit (round_up 2097152 div kHugepageSize) sample_mid
   \<and> kernel_answer [(11, ENOMEM)] = Some ENOMEM
   \<and> (0x401FE000 :: addr) mod 4096 = 0
   \<and> (\<exists>u. free_page 0x401FE000 (sample_mid\<lparr>prev_allocation_size := 4194304\<rparr>) = Returns u
          \<and> alloc_page [] u
              = Returns (0x401FE000, sample_mid\<lparr>prev_allocation_size := 4194304\<rparr>))"
proof -
  let ?s' = "sample_mid\<lparr>page_freelist := map (\<lambda>k. 0x40000000 + of_nat k * 4096) [0..<510],
             tot_memory_allocated := 8192\<rparr>"
  let ?s'' = "sample_mid\<lparr>prev_allocation_size := 4194304\<rparr>"
  have p: "alloc_page [] sample_mid = Returns (0x401FF000, ?s')"
    by (simp add: alloc_page_def sample_mid_def kPageSize_def)
  have h: "alloc_huge [(11, ENOMEM)] 2097152 sample_mid = Returns (0, ?s'')"
    by (simp add: alloc_huge_def sample_mid_def reserve_hugepages_def round_up_def
        double_while.simps kMaxAllocSize_def kHugepageSize_def)
  have f: "mappings_fit (shm_list sample_mid)" "mappings_fit (shm_list ?s')"
    "mappings_fit (shm_list ?s'')"
    by (simp_all add: mappings_fit_def sample_mid_def region_range_def)
  have al: "(0x401FE000 :: addr) mod 4096 = 0"
    by simp
  have n: "never_frees_null sample_pages"
    by (simp add: never_frees_null_def sample_pages_def)
  note t = null_only_when_out_of_hugepages
    [OF sample_ctor sample_run_pages n,
      of "[]" "0x401FF000" ?s' "0x401FE000" "[]" "[(11, ENOMEM)]" 2097152 0 ?s'']
  from t [THEN conjunct1] p f(2)
  have a: "\<not> (page_freelist sample_mid = [] \<and> tot_free_hugepages sample_mid = 0
          \<and> kernel_answer [] = Some ENOMEM)"
    by simp
  from t [THEN conjunct2] h f(3) al
  have b: "no_fit (round_up 2097152 div kHugepageSize) sample_mid
      \<and> kernel_answer [(11, ENOMEM)] = Some ENOMEM"
    and c: "\<exists>u. free_page 0x401FE000 ?s'' = Returns u
          \<and> alloc_page [] u = Returns (0x401FE000, ?s'')"
    by blast+
  from sample_ctor sample_run_pages n p f(1) a h b al c show ?thesis
    by (intro conjI) simp_all
qed

text \<open>
  Claim C2 as stated fails: \<open>free_page\<close> asserts only that the address is a multiple
  of 4096, which the null address is, and pushes it on the freelist; the next
  \<open>alloc_page\<close> pops it. On a fresh allocator with one free hugepage the caller frees
  the null address and asks for a page: the page is null although \<open>reserve_hugepages\<close>
  was not called and the kernel would have created a segment, and
  \<open>tot_memory_allocated\<close> has passed through \<open>2 ^ 64 - 4096\<close>.
\<close>

theorem null_page_from_freelist_counterexample:
  "HugeAllocator_ctor 8 [(5, Shm_created 0x40000000 0)] 2097152 0 = Returns sample_start
   \<and> run [Free_page 0] (sample_start, new_client)
       = Returns (sample_start\<lparr>page_freelist := [0],
                    tot_memory_allocated := 18446744073709547520\<rparr>, new_client)
   \<and> mappings_fit (shm_list sample_start)
   \<and> alloc_page [(7, Shm_created 0x80000000 0)]
         (sample_start\<lparr>page_freelist := [0], tot_memory_allocated := 18446744073709547520\<rparr>)
       = Returns (0, sample_start)
   \<and> tot_free_hugepages sample_start = 1
   \<and> kernel_answer [(7, Shm_created 0x80000000 0)] \<noteq> Some ENOMEM"
  by (simp add: sample_ctor free_page_def alloc_page_def sample_start_def new_client_def
      kPageSize_def kernel_answer_def mappings_fit_def region_range_def)

section \<open>The cursor of a region\<close>

lemma region_ok_cursor_bound:
  assumes "region_ok r"
  shows "unat (cur_buf r) \<le> unat (base_buf r) + unat (size_r r)"
proof -
  from assms have le: "unat (free_hugepages r) * 2097152 \<le> unat (size_r r)"
    and cur: "cur_buf r = base_buf r + (size_r r - free_hugepages r * kHugepageSize)"
    by (simp_all add: region_ok_def)
  have lt: "unat (size_r r) < 2 ^ 64"
    using unsigned_less [of "size_r r", where 'a = nat] by simp
  have m: "unat (free_hugepages r * kHugepageSize) = unat (free_hugepages r) * 2097152"
    using le lt by (simp add: unat_word_ariths unat_kHugepageSize)
  have "free_hugepages r * kHugepageSize \<le> size_r r"
    using le by (simp add: word_le_nat_alt m)
  then have d: "unat (size_r r - free_hugepages r * kHugepageSize) \<le> unat (size_r r)"
    by (simp add: unat_sub)
  have "unat (cur_buf r)
      = (unat (base_buf r) + unat (size_r r - free_hugepages r * kHugepageSize)) mod 2 ^ 64"
    unfolding cur by (simp add: unat_word_ariths)
  also have "\<dots> \<le> unat (base_buf r) + unat (size_r r - free_hugepages r * kHugepageSize)"
    by (rule mod_less_eq_dividend)
  also have "\<dots> \<le> unat (base_buf r) + unat (size_r r)"
    using d by simp
  finally show ?thesis .
qed

lemma cursor_advances:
  assumes "region_ok r" and "region_ok r'" and "region_grows r r'"
    and "unat (base_buf r) + unat (size_r r) < 2 ^ 64"
  shows "cur_buf r \<le> cur_buf r'"
proof -
  from assms(3) have same: "base_buf r' = base_buf r" "size_r r' = size_r r"
    and "free_hugepages r' \<le> free_hugepages r"
    by (simp_all add: region_grows_def)
  then have "unat (free_hugepages r') * 2097152 \<le> unat (free_hugepages r) * 2097152"
    by (simp add: word_le_nat_alt)
  then have "carved r \<le> carved r'"
    by (simp add: carved_def same)
  moreover have "unat (cur_buf r) = unat (base_buf r) + carved r"
    using assms(1,4) by (rule unat_cur_buf)
  moreover have "unat (cur_buf r') = unat (base_buf r) + carved r'"
    using unat_cur_buf [OF assms(2)] assms(4) by (simp add: same)
  ultimately show ?thesis
    by (simp add: word_le_nat_alt)
qed

text \<open>
  Claim C3. In every state \<open>s\<close> that a constructed allocator reaches by public
  operations, each region satisfies \<open>cursor = base + (size - free_hugepages * H)\<close> (in
  pointer arithmetic), \<open>free_hugepages * H \<le> size\<close> and \<open>cursor \<le> base + size\<close> (as
  numbers). Over any further operations the registry keeps its regions with their base
  and size, and the cursor of a region that lies below the top of the address space
  does not decrease.
\<close>

theorem region_cursor_invariant:
  assumes "HugeAllocator_ctor M rs0 initial_size numa = Returns s0"
    and "run cs (s0, new_client) = Returns (s, c)"
    and "run cs' (s, c) = Returns (s', c')"
  shows "(\<forall>r \<in> set (shm_list s).
            cur_buf r = base_buf r + (size_r r - free_hugepages r * kHugepageSize)
          \<and> unat (free_hugepages r) * unat kHugepageSize \<le> unat (size_r r)
          \<and> unat (cur_buf r) \<le> unat (base_buf r) + unat (size_r r))
       \<and> length (shm_list s) \<le> length (shm_list s')
       \<and> (\<forall>i < length (shm_list s).
            base_buf (shm_list s' ! i) = base_buf (shm_list s ! i)
          \<and> size_r (shm_list s' ! i) = size_r (shm_list s ! i)
          \<and> (unat (base_buf (shm_list s ! i)) + unat (size_r (shm_list s ! i)) < 2 ^ 64
               \<longrightarrow> cur_buf (shm_list s ! i) \<le> cur_buf (shm_list s' ! i)))"
proof (intro conjI ballI allI impI)
  have inv: "allocator_inv s"
    using reachable_allocator_inv [OF assms(1,2)] by simp
  have "run (cs @ cs') (s0, new_client) = Returns (s', c')"
    using assms(2,3) by (simp add: run_append)
  then have inv': "allocator_inv s'"
    using reachable_allocator_inv [OF assms(1)] by fastforce
  have ext: "regions_extend (shm_list s) (shm_list s')"
    using regions_extend_run [OF assms(3)] by simp
  {
    fix r assume "r \<in> set (shm_list s)"
    with inv have ok: "region_ok r" by (simp add: allocator_inv_def)
    then show "cur_buf r = base_buf r + (size_r r - free_hugepages r * kHugepageSize)"
      and "unat (free_hugepages r) * unat kHugepageSize \<le> unat (size_r r)"
      by (simp_all add: region_ok_def unat_kHugepageSize)
    from ok show "unat (cur_buf r) \<le> unat (base_buf r) + unat (size_r r)"
      by (rule region_ok_cursor_bound)
  }
  show "length (shm_list s) \<le> length (shm_list s')"
    using ext by (simp add: regions_extend_def)
  {
    fix i assume i: "i < length (shm_list s)"
    with ext have g: "region_grows (shm_list s ! i) (shm_list s' ! i)"
      and i': "i < length (shm_list s')"
      by (simp_all add: regions_extend_def)
    then show "base_buf (shm_list s' ! i) = base_buf (shm_list s ! i)"
      and "size_r (shm_list s' ! i) = size_r (shm_list s ! i)"
      by (simp_all add: region_grows_def)
    assume fit: "unat (base_buf (shm_list s ! i)) + unat (size_r (shm_list s ! i)) < 2 ^ 64"
    have "region_ok (shm_list s ! i)" "region_ok (shm_list s' ! i)"
      using inv inv' i i' by (simp_all add: allocator_inv_def)
    from cursor_advances [OF this g fit]
    show "cur_buf (shm_list s ! i) \<le> cur_buf (shm_list s' ! i)" .
  }
qed

theorem region_cursor_invariant_witness:
  "HugeAllocator_ctor 8 [(5, Shm_created 0x40000000 0)] 2097152 0 = Returns sample_start
   \<and> run sample_pages (sample_start, new_client) = Returns (sample_mid, sample_mid_client)
   \<and> run sample_huge (sample_mid, sample_mid_client) = Returns (sample_end, sample_end_client)
   \<and> cur_buf (shm_list sample_mid ! 0)
       = base_buf (shm_list sample_mid ! 0)
         + (size_r (shm_list sample_mid ! 0)
            - free_hugepages (shm_list sample_mid ! 0) * kHugepageSize)
   \<and> length (shm_list sample_mid) \<le> length (shm_list sample_end)
   \<and> base_buf (shm_list sample_end ! 0) = base_buf (shm_list sample_mid ! 0)
   \<and> cur_buf (shm_list sample_mid ! 0) \<le> cur_buf (shm_list sample_end ! 0)"
proof -
  note t = region_cursor_invariant [OF sample_ctor sample_run_pages sample_run_huge]
  have m: "shm_list sample_mid ! 0 \<in> set (shm_list sample_mid)"
    "0 < length (shm_list sample_mid)"
    "unat (base_buf (shm_list sample_mid ! 0)) + unat (size_r (shm_list sample_mid ! 0)) < 2 ^ 64"
    by (simp_all add: sample_mid_def)
  from t m sample_ctor sample_run_pages sample_run_huge show ?thesis
    by blast
qed

section \<open>Accounting\<close>

lemma hugepage_multiple_add:
  fixes x y :: size_t
  assumes "unat x mod 2097152 = 0" and "unat y mod 2097152 = 0"
  shows "unat (x + y) mod 2097152 = 0"
proof -
  have "(2097152::nat) dvd unat x" and "(2097152::nat) dvd unat y"
    using assms by (simp_all add: dvd_eq_mod_eq_0)
  then have "(2097152::nat) dvd unat x + unat y"
    by (rule dvd_add)
  moreover have "(2097152::nat) dvd 2 ^ 64"
    by (rule dvd_trans [of _ "2 ^ 21"]) (simp_all add: le_imp_power_dvd)
  ultimately have "(2097152::nat) dvd (unat x + unat y) mod 2 ^ 64"
    by (simp add: dvd_mod)
  then show ?thesis
    by (simp add: unat_word_ariths dvd_eq_mod_eq_0)
qed

lemma hugepage_multiple_sum:
  assumes "\<forall>r \<in> set regs. region_ok r"
  shows "unat (sum_list (map size_r regs)) mod 2097152 = 0"
  using assms
proof (induction regs)
  case Nil
  show ?case by simp
next
  case (Cons r regs)
  then have "unat (size_r r) mod 2097152 = 0"
    and "unat (sum_list (map size_r regs)) mod 2097152 = 0"
    by (simp_all add: region_ok_def)
  then show ?case
    by (simp add: hugepage_multiple_add)
qed

text \<open>
  Claim C4. In every state that a constructed allocator reaches by public operations,
  \<open>get_reserved_memory\<close> returns the sum of the sizes of the regions, a multiple of
  \<open>H\<close>. For a caller that frees only pages it holds (so each at most once), and regions
  that lie below the top of the address space, \<open>get_allocated_memory\<close> returns 4 KiB
  times the number of pages held plus the sum of \<open>round_up size\<close> over the successful
  \<open>alloc_huge\<close> calls. Sums are in \<open>size_t\<close> arithmetic.
\<close>

theorem memory_accounting:
  assumes "HugeAllocator_ctor M rs0 initial_size numa = Returns s0"
    and "run cs (s0, new_client) = Returns (s, c)"
  shows "get_reserved_memory s = Returns (sum_list (map size_r (shm_list s)))
       \<and> sum_list (map size_r (shm_list s)) mod kHugepageSize = 0
       \<and> (disciplined cs (s0, new_client) \<and> mappings_fit (shm_list s)
            \<longrightarrow> get_allocated_memory s
                  = Returns (kPageSize * of_nat (length (live_pages c))
                             + sum_list (map snd (huge_bufs c))))"
proof -
  have inv: "allocator_inv s"
    using reachable_allocator_inv [OF assms(1,2)] by simp
  then have res: "tot_memory_reserved s = sum_list (map size_r (shm_list s))"
    and "\<forall>r \<in> set (shm_list s). region_ok r"
    and pg: "unat (tot_memory_allocated s) mod 4096 = 0"
    by (simp_all add: allocator_inv_def)
  from hugepage_multiple_sum [OF this(2)]
  have "unat (sum_list (map size_r (shm_list s)) mod kHugepageSize) = 0"
    by (simp add: unat_mod unat_kHugepageSize)
  then have m: "sum_list (map size_r (shm_list s)) mod kHugepageSize = 0"
    by (simp add: unat_eq_0)
  then have r: "get_reserved_memory s = Returns (sum_list (map size_r (shm_list s)))"
    by (simp add: get_reserved_memory_def res)
  have "unat (tot_memory_allocated s mod kPageSize) = 0"
    using pg by (simp add: unat_mod unat_kPageSize)
  then have a: "get_allocated_memory s = Returns (tot_memory_allocated s)"
    by (simp add: get_allocated_memory_def unat_eq_0)
  have "tot_memory_allocated s = kPageSize * of_nat (length (live_pages c))
      + sum_list (map snd (huge_bufs c))"
    if "disciplined cs (s0, new_client)" "mappings_fit (shm_list s)"
    using reachable_ledger_inv(1) [OF assms(1,2) that(1)] that(2)
    by (simp add: ledger_inv_def)
  with r m a show ?thesis by simp
qed

theorem memory_accounting_witness:
  "HugeAllocator_ctor 8 [(5, Shm_created 0x40000000 0)] 2097152 0 = Returns sample_start
   \<and> run (sample_pages @ sample_huge) (sample_start, new_client)
       = Returns (sample_end, sample_end_client)
   \<and> disciplined (sample_pages @ sample_huge) (sample_start, new_client)
   \<and> mappings_fit (shm_list sample_end)
   \<and> get_reserved_memory sample_end = Returns 6291456
   \<and> get_allocated_memory sample_end = Returns (4096 * 1 + 4194304)"
proof -
  from memory_accounting [OF sample_ctor sample_run] sample_disciplined sample_mappings(1)
  have "get_reserved_memory sample_end = Returns 6291456"
    and "get_allocated_memory sample_end = Returns (4096 * 1 + 4194304)"
    by (simp_all add: sample_end_def sample_end_client_def kPageSize_def)
  with sample_ctor sample_run sample_disciplined sample_mappings(1) show ?thesis
    by (intro conjI)
qed

section \<open>The freelist is last in, first out\<close>

text \<open>
  Claim C5. In every allocator state, \<open>free_page a\<close> followed at once by \<open>alloc_page\<close>
  returns \<open>a\<close>, and leaves the allocator as it was before the two calls. In particular,
  after \<open>a = alloc_page(); b = alloc_page(); free_page(a); c = alloc_page()\<close> the page
  \<open>c\<close> is \<open>a\<close>.
\<close>

theorem freed_page_is_next:
  "(free_page a s = Returns s1 \<longrightarrow> alloc_page rs s1 = Returns (a, s))
   \<and> (alloc_page r0 t0 = Returns (x, t1) \<and> alloc_page r1 t1 = Returns (y, t2)
        \<and> free_page x t2 = Returns t3 \<and> alloc_page r3 t3 = Returns (z, t4)
      \<longrightarrow> z = x)"
proof -
  have one: "alloc_page rs' u1 = Returns (p, u)" if "free_page p u = Returns u1" for p u u1 rs'
    using that by (auto simp: free_page_Returns alloc_page_def)
  show ?thesis
  proof (intro conjI impI)
    assume "free_page a s = Returns s1"
    then show "alloc_page rs s1 = Returns (a, s)" by (rule one)
  next
    assume "alloc_page r0 t0 = Returns (x, t1) \<and> alloc_page r1 t1 = Returns (y, t2)
        \<and> free_page x t2 = Returns t3 \<and> alloc_page r3 t3 = Returns (z, t4)"
    then have "free_page x t2 = Returns t3" and r: "alloc_page r3 t3 = Returns (z, t4)"
      by simp_all
    from one [OF this(1), of r3] r show "z = x" by simp
  qed
qed

theorem freed_page_is_next_witness:
  "free_page 0x40001000 (sample_busy\<lparr>page_freelist := [0x40000000]\<rparr>)
     = Returns (sample_busy\<lparr>tot_memory_allocated := 2084864\<rparr>)
   \<and> alloc_page [] (sample_busy\<lparr>tot_memory_allocated := 2084864\<rparr>)
     = Returns (0x40001000, sample_busy\<lparr>page_freelist := [0x40000000]\<rparr>)
   \<and> alloc_page [] sample_busy
     = Returns (0x40001000,
         sample_busy\<lparr>page_freelist := [0x40000000], tot_memory_allocated := 2093056\<rparr>)
   \<and> alloc_page [] (sample_busy\<lparr>page_freelist := [0x40000000], tot_memory_allocated := 2093056\<rparr>)
     = Returns (0x40000000, sample_busy\<lparr>page_freelist := [], tot_memory_allocated := 2097152\<rparr>)
   \<and> free_page 0x40001000 (sample_busy\<lparr>page_freelist := [], tot_memory_allocated := 2097152\<rparr>)
     = Returns (sample_busy\<lparr>page_freelist := [0x40001000], tot_memory_allocated := 2093056\<rparr>)
   \<and> alloc_page [] (sample_busy\<lparr>page_freelist := [0x40001000], tot_memory_allocated := 2093056\<rparr>)
     = Returns (0x40001000, sample_busy\<lparr>page_freelist := [], tot_memory_allocated := 2097152\<rparr>)"
proof -
  have f: "free_page 0x40001000 (sample_busy\<lparr>page_freelist := [0x40000000]\<rparr>)
      = Returns (sample_busy\<lparr>tot_memory_allocated := 2084864\<rparr>)"
    by (simp add: free_page_def sample_busy_def kPageSize_def)
  have a: "alloc_page [] sample_busy
      = Returns (0x40001000,
         sample_busy\<lparr>page_freelist := [0x40000000], tot_memory_allocated := 2093056\<rparr>)"
    by (simp add: alloc_page_def sample_busy_def kPageSize_def)
  have b: "alloc_page [] (sample_busy\<lparr>page_freelist := [0x40000000], tot_memory_allocated := 2093056\<rparr>)
      = Returns (0x40000000, sample_busy\<lparr>page_freelist := [], tot_memory_allocated := 2097152\<rparr>)"
    by (simp add: alloc_page_def sample_busy_def kPageSize_def)
  have g: "free_page 0x40001000 (sample_busy\<lparr>page_freelist := [], tot_memory_allocated := 2097152\<rparr>)
      = Returns (sample_busy\<lparr>page_freelist := [0x40001000], tot_memory_allocated := 2093056\<rparr>)"
    by (simp add: free_page_def sample_busy_def kPageSize_def)
  have c: "alloc_page [] (sample_busy\<lparr>page_freelist := [0x40001000], tot_memory_allocated := 2093056\<rparr>)
      = Returns (0x40001000, sample_busy\<lparr>page_freelist := [], tot_memory_allocated := 2097152\<rparr>)"
    by (simp add: alloc_page_def sample_busy_def kPageSize_def)
  from freed_page_is_next
    [of "0x40001000" "sample_busy\<lparr>page_freelist := [0x40000000]\<rparr>"
      "sample_busy\<lparr>tot_memory_allocated := 2084864\<rparr>" "[]"
      "[]" sample_busy "0x40001000"
      "sample_busy\<lparr>page_freelist := [0x40000000], tot_memory_allocated := 2093056\<rparr>"
      "[]" "0x40000000" "sample_busy\<lparr>page_freelist := [], tot_memory_allocated := 2097152\<rparr>"
      "sample_busy\<lparr>page_freelist := [0x40001000], tot_memory_allocated := 2093056\<rparr>"
      "[]" "0x40001000" "sample_busy\<lparr>page_freelist := [], tot_memory_allocated := 2097152\<rparr>"]
    f a b g c
  show ?thesis by simp
qed

section \<open>Carving a hugepage\<close>

lemma unat_page_at_room:
  assumes "unat cur + 2097152 \<le> 2 ^ 64" and "j < 512"
  shows "unat (page_at cur j) = unat cur + j * 4096"
proof -
  have o: "unat (of_nat j * kPageSize :: size_t) = j * 4096"
    using assms(2) by (simp add: unat_word_ariths kPageSize_def unat_of_nat)
  have "unat cur + unat (of_nat j * kPageSize :: size_t) < 2 ^ LENGTH(64)"
    using assms by (simp add: o)
  then have "unat (cur + of_nat j * kPageSize)
      = unat cur + unat (of_nat j * kPageSize :: size_t)"
    by (rule unat_add_lem [THEN iffD1])
  then show ?thesis
    by (simp only: page_at_def o)
qed

lemma pages_increasing:
  assumes "unat cur + 2097152 \<le> 2 ^ 64"
  shows "sorted_wrt (<) (map (page_at cur) [0..<512])"
proof -
  have "sorted_wrt (\<lambda>i k. page_at cur i < page_at cur k) [0..<512]"
  proof (rule sorted_wrt_mono_rel [where P = "(<)"])
    show "sorted_wrt (<) [0..<512]" by (rule sorted_wrt_upt)
  next
    fix i k :: nat
    assume "i \<in> set [0..<512]" "k \<in> set [0..<512]" "i < k"
    then show "page_at cur i < page_at cur k"
      by (simp add: word_less_nat_alt unat_page_at_room [OF assms])
  qed
  then show ?thesis by (simp add: sorted_wrt_map)
qed

lemma carve_pushes:
  assumes "page_freelist t = []" and "j < length (shm_list t)"
  defines "cur \<equiv> cur_buf (shm_list t ! j)"
  shows "page_freelist (carve j t) @ [page_at cur 511] = map (page_at cur) [0..<512]"
    and "page_at cur 511 = cur + (kHugepageSize - kPageSize)"
    and "cur_buf (shm_list (carve j t) ! j) = cur + kHugepageSize"
    and "free_hugepages (shm_list (carve j t) ! j) = free_hugepages (shm_list t ! j) - 1"
    and "base_buf (shm_list (carve j t) ! j) = base_buf (shm_list t ! j)"
    and "\<forall>k. k \<noteq> j \<longrightarrow> shm_list (carve j t) ! k = shm_list t ! k"
  using assms(1,2)
  by (simp_all add: cur_def upt_512 page_at_def kHugepageSize_def kPageSize_def popped_def)

lemma carve_in_order:
  assumes t: "page_freelist t = []" "first_free j t"
    "a = page_at (cur_buf (shm_list t ! j)) 511" "s' = carve j t"
    "\<forall>k < length (shm_list s). shm_list t ! k = shm_list s ! k"
    "\<forall>k. length (shm_list s) \<le> k \<and> k < length (shm_list t)
        \<longrightarrow> cur_buf (shm_list t ! k) = base_buf (shm_list t ! k)"
  shows "\<exists>j < length (shm_list s').
     let cur = (if j < length (shm_list s) then cur_buf (shm_list s ! j)
                else base_buf (shm_list s' ! j))
     in page_freelist s' @ [a] = map (\<lambda>k. cur + of_nat k * kPageSize) [0..<512]
        \<and> a = cur + (kHugepageSize - kPageSize)
        \<and> cur_buf (shm_list s' ! j) = cur + kHugepageSize
        \<and> (\<forall>k < j. free_hugepages (shm_list s' ! k) = 0)
        \<and> (unat cur + unat kHugepageSize \<le> 2 ^ 64
             \<longrightarrow> sorted_wrt (<) (page_freelist s' @ [a]))"
proof -
  from t(2) have j: "j < length (shm_list t)"
    and zero: "\<forall>k < j. free_hugepages (shm_list t ! k) = 0"
    by (simp_all add: first_free_def)
  define cur where "cur = cur_buf (shm_list t ! j)"
  note cp = carve_pushes [OF t(1) j, folded cur_def]
  have c: "(if j < length (shm_list s) then cur_buf (shm_list s ! j)
      else base_buf (shm_list s' ! j)) = cur"
  proof (cases "j < length (shm_list s)")
    case True
    with t(5) show ?thesis by (simp add: cur_def)
  next
    case False
    with t(6) j have "cur_buf (shm_list t ! j) = base_buf (shm_list t ! j)" by simp
    with False cp(5) show ?thesis by (simp only: t(4) cur_def if_False)
  qed
  have pushed: "page_freelist s' @ [a] = map (\<lambda>k. cur + of_nat k * kPageSize) [0..<512]"
    using cp(1) unfolding t(3,4) cur_def page_at_def [abs_def] .
  have ret: "a = cur + (kHugepageSize - kPageSize)"
    using cp(2) unfolding t(3) cur_def .
  have moved: "cur_buf (shm_list s' ! j) = cur + kHugepageSize"
    using cp(3) unfolding t(4) .
  have before: "\<forall>k < j. free_hugepages (shm_list s' ! k) = 0"
  proof (intro allI impI)
    fix k assume k: "k < j"
    then have "k \<noteq> j" by simp
    with cp(6) have "shm_list (carve j t) ! k = shm_list t ! k" by blast
    with zero k show "free_hugepages (shm_list s' ! k) = 0" by (simp only: t(4))
  qed
  have incr: "unat cur + unat kHugepageSize \<le> 2 ^ 64
      \<longrightarrow> sorted_wrt (<) (page_freelist s' @ [a])"
  proof
    assume "unat cur + unat kHugepageSize \<le> 2 ^ 64"
    then have "unat cur + 2097152 \<le> 2 ^ 64" by (simp only: unat_kHugepageSize)
    from pages_increasing [OF this] show "sorted_wrt (<) (page_freelist s' @ [a])"
      unfolding pushed page_at_def [abs_def] .
  qed
  have len: "j < length (shm_list s')"
    using j unfolding t(4) carve_fields by simp
  show ?thesis
  proof (intro exI [of _ j] conjI)
    show "j < length (shm_list s')" by (rule len)
    show "let cur = (if j < length (shm_list s) then cur_buf (shm_list s ! j)
                else base_buf (shm_list s' ! j))
     in page_freelist s' @ [a] = map (\<lambda>k. cur + of_nat k * kPageSize) [0..<512]
        \<and> a = cur + (kHugepageSize - kPageSize)
        \<and> cur_buf (shm_list s' ! j) = cur + kHugepageSize
        \<and> (\<forall>k < j. free_hugepages (shm_list s' ! k) = 0)
        \<and> (unat cur + unat kHugepageSize \<le> 2 ^ 64
             \<longrightarrow> sorted_wrt (<) (page_freelist s' @ [a]))"
      unfolding Let_def c using pushed ret moved before incr by (intro conjI)
  qed
qed

text \<open>
  Claim C6. When \<open>alloc_page\<close> is entered with an empty freelist and returns, either the
  kernel was out of hugepages and nothing was carved, or one hugepage was carved at the
  cursor \<open>cur\<close> of the first region with a free hugepage \<open>j\<close> (a region that was there
  before, or the one just reserved, whose cursor is its base): the pages \<open>cur + 0\<close>,
  \<open>cur + 4096\<close>, ..., \<open>cur + (H - 4096)\<close> were pushed in this order, the last of them was
  popped and returned, and the region's cursor moved by \<open>H\<close>. The addresses increase
  when the hugepage does not wrap around the address space.
\<close>

theorem carve_pushes_in_order:
  assumes "page_freelist s = []" and "alloc_page rs s = Returns (a, s')"
  shows "(a = 0 \<and> kernel_answer rs = Some ENOMEM \<and> tot_free_hugepages s = 0
            \<and> page_freelist s' = [] \<and> shm_list s' = shm_list s)
       \<or> (\<exists>j < length (shm_list s').
             let cur = (if j < length (shm_list s) then cur_buf (shm_list s ! j)
                        else base_buf (shm_list s' ! j))
             in page_freelist s' @ [a] = map (\<lambda>k. cur + of_nat k * kPageSize) [0..<512]
                \<and> a = cur + (kHugepageSize - kPageSize)
                \<and> cur_buf (shm_list s' ! j) = cur + kHugepageSize
                \<and> (\<forall>k < j. free_hugepages (shm_list s' ! k) = 0)
                \<and> (unat cur + unat kHugepageSize \<le> 2 ^ 64
                     \<longrightarrow> sorted_wrt (<) (page_freelist s' @ [a])))"
proof -
  from alloc_page_Returns [OF assms(2)] show ?thesis
  proof (elim disjE conjE exE)
    assume "page_freelist s \<noteq> []"
    with assms(1) show ?thesis by simp
  next
    assume "a = 0" "kernel_answer rs = Some ENOMEM" "tot_free_hugepages s = 0"
      "s' = s\<lparr>prev_allocation_size := prev_allocation_size s * 2\<rparr>"
    with assms(1) show ?thesis by simp
  next
    fix j
    assume "first_free j s" "a = page_at (cur_buf (shm_list s ! j)) 511" "s' = carve j s"
    moreover have "\<forall>k < length (shm_list s). shm_list s ! k = shm_list s ! k"
      and "\<forall>k. length (shm_list s) \<le> k \<and> k < length (shm_list s)
          \<longrightarrow> cur_buf (shm_list s ! k) = base_buf (shm_list s ! k)"
      by auto
    ultimately show ?thesis
      by (intro disjI2 carve_in_order [OF assms(1)])
  next
    fix k buf j
    let ?t = "with_region (fresh_region k buf (prev_allocation_size s * 2))
      (s\<lparr>prev_allocation_size := prev_allocation_size s * 2\<rparr>)"
    assume "let s1 = ?t in first_free j s1 \<and> a = page_at (cur_buf (shm_list s1 ! j)) 511
          \<and> s' = carve j s1"
    then have *: "first_free j ?t" "a = page_at (cur_buf (shm_list ?t ! j)) 511"
      "s' = carve j ?t" by (simp_all add: Let_def)
    have e: "page_freelist ?t = []"
      using assms(1) by (simp add: with_region_def)
    have old: "\<forall>k < length (shm_list s). shm_list ?t ! k = shm_list s ! k"
      by (simp add: with_region_def nth_append)
    have new: "\<forall>i. length (shm_list s) \<le> i \<and> i < length (shm_list ?t)
          \<longrightarrow> cur_buf (shm_list ?t ! i) = base_buf (shm_list ?t ! i)"
    proof (intro allI impI)
      fix i assume "length (shm_list s) \<le> i \<and> i < length (shm_list ?t)"
      then have "i = length (shm_list s)" by (simp add: with_region_def)
      then show "cur_buf (shm_list ?t ! i) = base_buf (shm_list ?t ! i)"
        by (simp add: with_region_def fresh_region_def)
    qed
    from carve_in_order [OF e * old new] show ?thesis by (rule disjI2)
  qed
qed

theorem carve_pushes_in_order_witness:
  "page_freelist sample_start = []
   \<and> alloc_page [] sample_start = Returns (0x401FF000, carve 0 sample_start)
   \<and> ((0x401FF000 :: addr) = 0 \<and> kernel_answer [] = Some ENOMEM
          \<and> tot_free_hugepages sample_start = 0
          \<and> page_freelist (carve 0 sample_start) = []
          \<and> shm_list (carve 0 sample_start) = shm_list sample_start
       \<or> (\<exists>j < length (shm_list (carve 0 sample_start)).
            let cur = (if j < length (shm_list sample_start)
                       then cur_buf (shm_list sample_start ! j)
                       else base_buf (shm_list (carve 0 sample_start) ! j))
            in page_freelist (carve 0 sample_start) @ [0x401FF000]
                 = map (\<lambda>k. cur + of_nat k * kPageSize) [0..<512]
               \<and> 0x401FF000 = cur + (kHugepageSize - kPageSize)
               \<and> cur_buf (shm_list (carve 0 sample_start) ! j) = cur + kHugepageSize
               \<and> (\<forall>k < j. free_hugepages (shm_list (carve 0 sample_start) ! k) = 0)
               \<and> (unat cur + unat kHugepageSize \<le> 2 ^ 64
                    \<longrightarrow> sorted_wrt (<)
                          (page_freelist (carve 0 sample_start) @ [0x401FF000]))))"
proof -
  have e: "page_freelist sample_start = []"
    by (simp add: sample_start_def)
  have r: "alloc_page [] sample_start = Returns (0x401FF000, carve 0 sample_start)"
    by (simp add: alloc_page_def sample_start_def pop_hugepages_def push_pages_eq upt_512
        carve_def pop_at_def popped_def page_at_def kPageSize_def kHugepageSize_def)
  from carve_pushes_in_order [OF e r] e r show ?thesis
    by (intro conjI)
qed

section \<open>The growth rule\<close>

lemma double_while_zero:
  assumes "0 < sz"
  shows "double_while 0 sz = None"
proof (cases "double_while 0 sz")
  case None
  then show ?thesis .
next
  case (Some y)
  have "\<not> (0 = (0 :: size_t) \<and> 0 < sz)"
  proof (rule double_while.raw_induct
      [where P = "\<lambda>p sz y. \<not> (p = 0 \<and> 0 < sz)", OF _ Some])
    fix f :: "size_t \<Rightarrow> size_t \<Rightarrow> size_t option" and p sz y
    assume IH: "\<And>p sz y. f p sz = Some y \<Longrightarrow> \<not> (p = 0 \<and> 0 < sz)"
      and eq: "(if p < sz then f (p * 2) sz else Some p) = Some y"
    show "\<not> (p = 0 \<and> 0 < sz)"
    proof
      assume a: "p = 0 \<and> 0 < sz"
      with eq have "f 0 sz = Some y" by simp
      from IH [OF this] a show False by simp
    qed
  qed
  with assms show ?thesis by simp
qed

lemma double_while_from:
  assumes "i \<le> 64"
  shows "double_while (prev * 2 ^ Suc i) need =
     (case find (\<lambda>j. need \<le> prev * 2 ^ Suc j) [i..<64] of
        Some j \<Rightarrow> Some (prev * 2 ^ Suc j)
      | None \<Rightarrow> double_while (prev * 2 ^ 65) need)"
  using assms
proof (induction "64 - i" arbitrary: i)
  case 0
  then have "i = 64" by simp
  then show ?case by simp
next
  case (Suc d)
  then have lt: "i < 64" and d: "d = 64 - Suc i" by simp_all
  have upt: "[i..<64] = i # [Suc i..<64]"
    using lt by (simp add: upt_conv_Cons)
  show ?case
  proof (cases "need \<le> prev * 2 ^ Suc i")
    case True
    then have "\<not> prev * 2 ^ Suc i < need" by (simp add: not_less)
    then have "double_while (prev * 2 ^ Suc i) need = Some (prev * 2 ^ Suc i)"
      by (subst double_while.simps) simp
    with True show ?thesis by (simp add: upt)
  next
    case False
    then have "prev * 2 ^ Suc i < need" by (simp add: not_le)
    then have "double_while (prev * 2 ^ Suc i) need
        = double_while (prev * 2 ^ Suc i * 2) need"
      by (subst double_while.simps) simp
    also have "prev * 2 ^ Suc i * 2 = prev * 2 ^ Suc (Suc i)"
      by (simp add: algebra_simps)
    also have "double_while (prev * 2 ^ Suc (Suc i)) need =
      (case find (\<lambda>j. need \<le> prev * 2 ^ Suc j) [Suc i..<64] of
         Some j \<Rightarrow> Some (prev * 2 ^ Suc j)
       | None \<Rightarrow> double_while (prev * 2 ^ 65) need)"
      using Suc.hyps(1) [OF d] lt by simp
    finally show ?thesis using False by (simp add: upt)
  qed
qed

lemma double_while_grown_request:
  "double_while (prev * 2) need = grown_request prev need"
proof (cases "find (\<lambda>j. need \<le> prev * 2 ^ Suc j) [0..<64]")
  case (Some j)
  with double_while_from [of 0 prev need] show ?thesis
    by (simp add: grown_request_def)
next
  case None
  then have "\<forall>j \<in> set [0..<64]. \<not> need \<le> prev * 2 ^ Suc j"
    by (simp only: find_None_iff) blast
  then have "\<not> need \<le> prev * 2 ^ Suc 0"
    by (rule bspec) simp
  then have pos: "0 < need"
    by (cases "need = 0") (simp_all add: word_gt_0)
  have "(2 :: size_t) ^ 65 = 0" by simp
  then have z: "prev * 2 ^ 65 = 0" by (simp only: mult_zero_right)
  from None double_while_from [of 0 prev need, unfolded z] double_while_zero [OF pos]
  show ?thesis
    by (simp add: grown_request_def)
qed

text \<open>
  Claim C7, as amended. An \<open>alloc_page\<close> that has to reserve (empty freelist, no free
  hugepage) and returns has invoked \<open>reserve_hugepages\<close> with \<open>prev_allocation_size\<close>
  doubled (modulo \<open>2 ^ 64\<close>). An \<open>alloc_huge\<close> that finds no fitting region and returns
  has invoked it with \<open>prev_allocation_size\<close> doubled, and doubled again until it is at
  least the requested size rounded up to whole hugepages. In both, the request is the
  new \<open>prev_allocation_size\<close>, also when the kernel answers \<open>ENOMEM\<close>, and a region added
  by the call has the request rounded up as its size.
\<close>

theorem growth_rule:
  "(page_freelist s = [] \<and> tot_free_hugepages s = 0 \<and> alloc_page rs s = Returns (a, s')
      \<longrightarrow> prev_allocation_size s' = prev_allocation_size s * 2
        \<and> (\<exists>ok u. reserve_hugepages rs (prev_allocation_size s') (numa_node s)
                     (s\<lparr>prev_allocation_size := prev_allocation_size s'\<rparr>) = Returns (ok, u))
        \<and> (kernel_answer rs = Some ENOMEM
             \<longrightarrow> a = 0 \<and> s' = s\<lparr>prev_allocation_size := prev_allocation_size s * 2\<rparr>)
        \<and> (length (shm_list s') \<noteq> length (shm_list s)
             \<longrightarrow> size_r (last (shm_list s')) = round_up (prev_allocation_size s')))
   \<and> (no_fit (round_up sz div kHugepageSize) t \<and> alloc_huge rs' sz t = Returns (b, t')
      \<longrightarrow> grown_request (prev_allocation_size t) (round_up sz)
            = Some (prev_allocation_size t')
        \<and> (\<exists>ok u. reserve_hugepages rs' (prev_allocation_size t') (numa_node t)
                     (t\<lparr>prev_allocation_size := prev_allocation_size t'\<rparr>) = Returns (ok, u))
        \<and> (kernel_answer rs' = Some ENOMEM
             \<longrightarrow> b = 0 \<and> t' = t\<lparr>prev_allocation_size := prev_allocation_size t'\<rparr>)
        \<and> (length (shm_list t') \<noteq> length (shm_list t)
             \<longrightarrow> size_r (last (shm_list t')) = round_up (prev_allocation_size t')))"
proof (intro conjI impI; elim conjE)
  {
    assume e: "page_freelist s = []" and z: "tot_free_hugepages s = 0"
      and ret: "alloc_page rs s = Returns (a, s')"
    let ?p = "prev_allocation_size s * 2"
    let ?s0 = "s\<lparr>prev_allocation_size := ?p\<rparr>"
    from alloc_page_Returns [OF ret] e z
    consider (oom) "kernel_answer rs = Some ENOMEM" "a = 0" "s' = ?s0"
      | (grown) k buf j where "buf \<noteq> 0" "kernel_answer rs = Some (Shm_created buf 0)"
          "s' = carve j (with_region (fresh_region k buf ?p) ?s0)"
          "j < length (shm_list (with_region (fresh_region k buf ?p) ?s0))"
      by (auto simp: Let_def first_free_def)
    then have "prev_allocation_size s' = ?p
        \<and> (\<exists>ok u. reserve_hugepages rs ?p (numa_node s) ?s0 = Returns (ok, u))
        \<and> (kernel_answer rs = Some ENOMEM \<longrightarrow> a = 0 \<and> s' = ?s0)
        \<and> (length (shm_list s') \<noteq> length (shm_list s)
             \<longrightarrow> size_r (last (shm_list s')) = round_up ?p)"
    proof cases
      case oom
      then have "reserve_hugepages rs ?p (numa_node s) ?s0 = Returns (False, ?s0)"
        by (simp add: reserve_hugepages_False)
      with oom show ?thesis by auto
    next
      case grown
      from reserve_hugepages_created [OF grown(2,1), of ?p "numa_node s" ?s0]
      have r: "\<exists>ok u. reserve_hugepages rs ?p (numa_node s) ?s0 = Returns (ok, u)"
        by blast
      have "last (shm_list s') = popped 1 (fresh_region k buf ?p)
          \<or> last (shm_list s') = fresh_region k buf ?p"
        using grown(4) unfolding grown(3)
        by (cases "j = length (shm_list s)")
          (simp_all add: with_region_def last_list_update)
      then have "size_r (last (shm_list s')) = round_up ?p"
        by (auto simp: fresh_region_def)
      with grown r show ?thesis
        by (simp add: with_region_def)
    qed
    then show "prev_allocation_size s' = prev_allocation_size s * 2"
      and "\<exists>ok u. reserve_hugepages rs (prev_allocation_size s') (numa_node s)
                     (s\<lparr>prev_allocation_size := prev_allocation_size s'\<rparr>) = Returns (ok, u)"
      and "kernel_answer rs = Some ENOMEM
        \<Longrightarrow> a = 0"
      and "kernel_answer rs = Some ENOMEM
        \<Longrightarrow> s' = s\<lparr>prev_allocation_size := prev_allocation_size s * 2\<rparr>"
      and "length (shm_list s') \<noteq> length (shm_list s)
        \<Longrightarrow> size_r (last (shm_list s')) = round_up (prev_allocation_size s')"
      by simp_all
  }
  {
    assume nf: "no_fit (round_up sz div kHugepageSize) t"
      and ret: "alloc_huge rs' sz t = Returns (b, t')"
    define n where "n = round_up sz div kHugepageSize"
    from alloc_huge_Returns [OF ret, folded n_def] nf first_fit_not_no_fit [of _ n t]
    obtain p where p: "double_while (prev_allocation_size t * 2) (round_up sz) = Some p"
      and cases: "(kernel_answer rs' = Some ENOMEM \<and> b = 0 \<and> t' = t\<lparr>prev_allocation_size := p\<rparr>)
        \<or> (\<exists>k buf. buf \<noteq> 0 \<and> kernel_answer rs' = Some (Shm_created buf 0)
              \<and> t' = bump (length (shm_list t)) n
                  (with_region (fresh_region k buf p) (t\<lparr>prev_allocation_size := p\<rparr>)))"
      unfolding n_def by blast
    let ?t0 = "t\<lparr>prev_allocation_size := p\<rparr>"
    from cases have "prev_allocation_size t' = p
        \<and> (\<exists>ok u. reserve_hugepages rs' p (numa_node t) ?t0 = Returns (ok, u))
        \<and> (kernel_answer rs' = Some ENOMEM \<longrightarrow> b = 0 \<and> t' = ?t0)
        \<and> (length (shm_list t') \<noteq> length (shm_list t)
             \<longrightarrow> size_r (last (shm_list t')) = round_up p)"
    proof (elim disjE conjE exE)
      assume oom: "kernel_answer rs' = Some ENOMEM" "b = 0" "t' = ?t0"
      then have "reserve_hugepages rs' p (numa_node t) ?t0 = Returns (False, ?t0)"
        by (simp add: reserve_hugepages_False)
      with oom show ?thesis by auto
    next
      fix k buf
      assume g: "buf \<noteq> 0" "kernel_answer rs' = Some (Shm_created buf 0)"
        "t' = bump (length (shm_list t)) n (with_region (fresh_region k buf p) ?t0)"
      from reserve_hugepages_created [OF g(2,1), of p "numa_node t" ?t0]
      have r: "\<exists>ok u. reserve_hugepages rs' p (numa_node t) ?t0 = Returns (ok, u)"
        by blast
      have "last (shm_list t') = popped n (fresh_region k buf p)"
        by (simp add: g(3) with_region_def)
      then have "size_r (last (shm_list t')) = round_up p"
        by (simp add: fresh_region_def)
      with g r show ?thesis
        by (simp add: with_region_def)
    qed
    with p show "grown_request (prev_allocation_size t) (round_up sz)
            = Some (prev_allocation_size t')"
      and "\<exists>ok u. reserve_hugepages rs' (prev_allocation_size t') (numa_node t)
                     (t\<lparr>prev_allocation_size := prev_allocation_size t'\<rparr>) = Returns (ok, u)"
      and "kernel_answer rs' = Some ENOMEM \<Longrightarrow> b = 0"
      and "kernel_answer rs' = Some ENOMEM
        \<Longrightarrow> t' = t\<lparr>prev_allocation_size := prev_allocation_size t'\<rparr>"
      and "length (shm_list t') \<noteq> length (shm_list t)
        \<Longrightarrow> size_r (last (shm_list t')) = round_up (prev_allocation_size t')"
      by (simp_all add: double_while_grown_request)
  }
qed

theorem growth_rule_witness:
  "page_freelist sample_full = [] \<and> tot_free_hugepages sample_full = 0
   \<and> alloc_page [(11, ENOMEM)] sample_full
       = Returns (0, sample_full\<lparr>prev_allocation_size := 4194304\<rparr>)
   \<and> kernel_answer [(11, ENOMEM)] = Some ENOMEM
   \<and> prev_allocation_size (sample_full\<lparr>prev_allocation_size := 4194304\<rparr>)
       = prev_allocation_size sample_full * 2
   \<and> no_fit (round_up 5452595 div kHugepageSize) uneven_start
   \<and> alloc_huge [(7, Shm_created 0x80000000 0)] 5452595 uneven_start
       = Returns (0x80000000, uneven_end)
   \<and> length (shm_list uneven_end) \<noteq> length (shm_list uneven_start)
   \<and> grown_request (prev_allocation_size uneven_start) (round_up 5452595)
       = Some (prev_allocation_size uneven_end)
   \<and> size_r (last (shm_list uneven_end)) = round_up (prev_allocation_size uneven_end)"
proof -
  have h: "page_freelist sample_full = []" "tot_free_hugepages sample_full = 0"
    by (simp_all add: sample_full_def)
  have k: "kernel_answer [(11, ENOMEM)] = Some ENOMEM"
    by (simp add: kernel_answer_def)
  have n: "no_fit (round_up 5452595 div kHugepageSize) uneven_start"
    by (simp add: no_fit_def uneven_start_def round_up_def kHugepageSize_def)
  have l: "length (shm_list uneven_end) \<noteq> length (shm_list uneven_start)"
    by (simp add: uneven_start_def uneven_end_def)
  note t = growth_rule
    [of sample_full "[(11, ENOMEM)]" 0 "sample_full\<lparr>prev_allocation_size := 4194304\<rparr>"
      5452595 uneven_start "[(7, Shm_created 0x80000000 0)]" "0x80000000" uneven_end]
  from t [THEN conjunct1] h sample_full_out_of_memory
  have a: "prev_allocation_size (sample_full\<lparr>prev_allocation_size := 4194304\<rparr>)
       = prev_allocation_size sample_full * 2"
    by blast
  from t [THEN conjunct2] n uneven_alloc_huge l
  have b: "grown_request (prev_allocation_size uneven_start) (round_up 5452595)
       = Some (prev_allocation_size uneven_end)"
    and c: "size_r (last (shm_list uneven_end)) = round_up (prev_allocation_size uneven_end)"
    by blast+
  from h sample_full_out_of_memory k a n uneven_alloc_huge l b c show ?thesis
    by (intro conjI)
qed

text \<open>
  Claim C7 as stated fails: the loop of \<open>alloc_huge\<close> compares with the size rounded
  up to whole hugepages, not with the byte count that the caller passed. With
  \<open>prev_allocation_size\<close> 2883584 and a request of 5452595 bytes, doubling until the raw
  byte count is reached gives 5767168; the code asks for 11534336.
\<close>

theorem growth_rule_raw_size_counterexample:
  "HugeAllocator_ctor 8 [(5, Shm_created 0x40000000 0)] 2883584 0 = Returns uneven_start
   \<and> no_fit (round_up 5452595 div kHugepageSize) uneven_start
   \<and> alloc_huge [(7, Shm_created 0x80000000 0)] 5452595 uneven_start
       = Returns (0x80000000, uneven_end)
   \<and> grown_request (prev_allocation_size uneven_start) 5452595 = Some 5767168
   \<and> prev_allocation_size uneven_end = 11534336
   \<and> size_r (last (shm_list uneven_end)) = 12582912
   \<and> grown_request (prev_allocation_size uneven_start) 5452595
       \<noteq> Some (prev_allocation_size uneven_end)"
proof -
  have c: "HugeAllocator_ctor 8 [(5, Shm_created 0x40000000 0)] 2883584 0
      = Returns uneven_start"
    by (simp add: HugeAllocator_ctor_def reserve_hugepages_def shm_region_t_def round_up_def
        kMaxAllocSize_def kHugepageSize_def uneven_start_def)
  have n: "no_fit (round_up 5452595 div kHugepageSize) uneven_start"
    by (simp add: no_fit_def uneven_start_def round_up_def kHugepageSize_def)
  have "grown_request 2883584 5452595 = Some 5767168"
    by code_simp
  then have g: "grown_request (prev_allocation_size uneven_start) 5452595 = Some 5767168"
    by (simp add: uneven_start_def)
  have p: "prev_allocation_size uneven_end = 11534336"
    "size_r (last (shm_list uneven_end)) = 12582912"
    by (simp_all add: uneven_end_def)
  have d: "grown_request (prev_allocation_size uneven_start) 5452595
       \<noteq> Some (prev_allocation_size uneven_end)"
    unfolding g p by simp
  from c n uneven_alloc_huge g p d show ?thesis
    by (intro conjI)
qed

section \<open>Live buffers do not overlap\<close>

text \<open>
  Claim C8. Let the regions lie below the top of the address space and be pairwise
  disjoint, and let the caller free only pages it holds. Then after any sequence of
  public operations the address ranges of the buffers it holds (4 KiB for a page,
  \<open>round_up size\<close> for a huge buffer) are pairwise apart; each is a non-empty range of
  non-null addresses below \<open>2 ^ 64\<close>.
\<close>

theorem live_buffers_disjoint:
  assumes "HugeAllocator_ctor M rs0 initial_size numa = Returns s0"
    and "run cs (s0, new_client) = Returns (s, c)"
    and "disciplined cs (s0, new_client)"
    and "mappings_fit (shm_list s)" and "mappings_disjoint (shm_list s)"
  shows "sorted_wrt apart (live_ranges c)
       \<and> (\<forall>b \<in> set (live_ranges c). 0 < fst b \<and> 0 < snd b \<and> fst b + snd b < 2 ^ 64)"
proof -
  have inv: "allocator_inv s"
    using reachable_allocator_inv [OF assms(1,2)] by simp
  then have oks: "\<forall>r \<in> set (shm_list s). region_ok r"
    by (simp add: allocator_inv_def)
  from reachable_ledger_inv [OF assms(1,2,3)] assms(4,5)
  have led: "ledger_inv (s, c)" and ap: "sorted_wrt apart (ranges (s, c))"
    by simp_all
  from ap have "sorted_wrt apart (live_ranges c)"
    by (simp add: ranges_def sorted_wrt_append)
  moreover have "0 < fst b \<and> 0 < snd b \<and> fst b + snd b < 2 ^ 64"
    if "b \<in> set (live_ranges c)" for b
  proof -
    from that led have h: "housed (shm_list s) b"
      by (simp add: ledger_inv_def ranges_def)
    then obtain r where r: "r \<in> set (shm_list s)" "inside b r"
      by (auto simp: housed_def)
    from assms(4) r(1) have "unat (base_buf r) + unat (size_r r) < 2 ^ 64"
      by (auto simp: mappings_fit_def list_all_iff region_range_def)
    moreover have "carved r \<le> unat (size_r r)" by (simp add: carved_def)
    ultimately have "fst b + snd b < 2 ^ 64"
      using r(2) by (simp add: inside_def)
    with h housed_start [OF h oks] show ?thesis
      by (simp add: housed_def)
  qed
  ultimately show ?thesis by blast
qed

theorem live_buffers_disjoint_witness:
  "HugeAllocator_ctor 8 [(5, Shm_created 0x40000000 0)] 2097152 0 = Returns sample_start
   \<and> run (sample_pages @ sample_huge) (sample_start, new_client)
       = Returns (sample_end, sample_end_client)
   \<and> disciplined (sample_pages @ sample_huge) (sample_start, new_client)
   \<and> mappings_fit (shm_list sample_end) \<and> mappings_disjoint (shm_list sample_end)
   \<and> live_ranges sample_end_client = [(0x401FE000, 4096), (0x80000000, 4194304)]
   \<and> sorted_wrt apart (live_ranges sample_end_client)"
proof -
  have l: "live_ranges sample_end_client = [(0x401FE000, 4096), (0x80000000, 4194304)]"
    by (simp add: live_ranges_def sample_end_client_def page_range_def huge_range_def)
  from live_buffers_disjoint [OF sample_ctor sample_run sample_disciplined sample_mappings]
  have "sorted_wrt apart (live_ranges sample_end_client)" ..
  with sample_ctor sample_run sample_disciplined sample_mappings l show ?thesis
    by (intro conjI)
qed

section \<open>The scan of \<open>alloc_page\<close> finds a region\<close>

lemma shmget_loop_no_exit: "shmget_loop rs sz \<noteq> Fatal Exit_alloc_page"
proof (induction rs)
  case Nil
  show ?case by simp
next
  case (Cons x rs)
  obtain rnd reply where x: "x = (rnd, reply)" by (cases x)
  show ?case
    using Cons.IH by (cases reply) (simp_all add: x)
qed

lemma reserve_hugepages_no_exit:
  "reserve_hugepages rs sz numa s \<noteq> Fatal Exit_alloc_page"
proof (cases "shmget_loop rs (round_up sz)")
  case (Returns got)
  then show ?thesis
    by (cases got)
      (auto simp: reserve_hugepages_def shm_region_t_def round_up_mod Let_def
        split: if_splits)
next
  case (Fatal e)
  with shmget_loop_no_exit [of rs "round_up sz"] show ?thesis
    by (simp add: reserve_hugepages_def)
next
  case Diverges
  then show ?thesis by (simp add: reserve_hugepages_def)
qed

lemma carve_scan_finds:
  assumes "i \<le> k" and "k < length (shm_list s)" and "free_hugepages (shm_list s ! k) \<noteq> 0"
  shows "\<exists>a s'. carve_scan (drop i (shm_list s)) i s = Returns (a, s')
           \<and> length (page_freelist s') = length (page_freelist s) + 511"
  using assms
proof (induction "drop i (shm_list s)" arbitrary: i)
  case Nil
  then show ?case by simp
next
  case (Cons r rest)
  from drop_eq_Cons [OF Cons.hyps(2) [symmetric]]
  have i: "i < length (shm_list s)" and r: "r = shm_list s ! i"
    and rest: "rest = drop (Suc i) (shm_list s)" by simp_all
  show ?case
  proof (cases "free_hugepages r > 0")
    case True
    then have one: "1 \<le> free_hugepages (shm_list s ! i)"
      by (simp add: r word_le_nat_alt word_less_nat_alt)
    have "carve_scan (r # rest) i s
        = Returns (page_at (cur_buf r) 511, carve i s)"
      using True one
      by (simp add: pop_hugepages_def Let_def r push_pages_eq upt_512 carve_def pop_at_def
          popped_def page_at_def [abs_def] butlast_append)
    then show ?thesis
      by (simp add: Cons.hyps(2) [symmetric])
  next
    case False
    then have z: "free_hugepages (shm_list s ! i) = 0"
      by (simp add: r word_gt_0)
    with Cons.prems have "Suc i \<le> k"
      by (cases "i = k") auto
    from Cons.hyps(1) [OF rest this Cons.prems(2,3)] False show ?thesis
      by (simp add: Cons.hyps(2) [symmetric] rest)
  qed
qed

lemma sum_list_nonzero:
  fixes f :: "'a \<Rightarrow> size_t"
  assumes "sum_list (map f xs) \<noteq> 0"
  shows "\<exists>k < length xs. f (xs ! k) \<noteq> 0"
proof (rule ccontr)
  assume "\<not> (\<exists>k < length xs. f (xs ! k) \<noteq> 0)"
  then have "\<forall>x \<in> set xs. f x = 0"
    by (auto simp: in_set_conv_nth)
  then have "sum_list (map f xs) = 0"
    by (induction xs) simp_all
  with assms show False by simp
qed

lemma fresh_region_free:
  assumes "round_up sz \<noteq> 0"
  shows "free_hugepages (fresh_region k buf sz) \<noteq> 0"
proof
  assume "free_hugepages (fresh_region k buf sz) = 0"
  then have "round_up sz div kHugepageSize * kHugepageSize = 0"
    by (simp add: fresh_region_def)
  with assms show False by (simp add: round_up_div_mult)
qed

text \<open>
  Claim C9. In every state that a constructed allocator reaches, \<open>tot_free_hugepages\<close>
  is the sum of \<open>free_hugepages\<close> over the regions (in \<open>size_t\<close> arithmetic). Provided
  the kernel creates no segment of zero bytes, \<open>alloc_page\<close> never ends in its final
  \<open>exit(-1)\<close>; and when the freelist is empty and \<open>tot_free_hugepages\<close> is not zero or the
  reservation succeeds, it returns from inside the loop, having carved a hugepage.
\<close>

theorem alloc_page_exit_unreachable:
  assumes "HugeAllocator_ctor M rs0 initial_size numa = Returns s0"
    and "run cs (s0, new_client) = Returns (s, c)"
    and "creates_segment rs \<longrightarrow> round_up (prev_allocation_size s * 2) \<noteq> 0"
  shows "tot_free_hugepages s = sum_list (map free_hugepages (shm_list s))
       \<and> alloc_page rs s \<noteq> Fatal Exit_alloc_page
       \<and> (page_freelist s = [] \<and>
            (tot_free_hugepages s \<noteq> 0
             \<or> (\<exists>t. reserve_hugepages rs (prev_allocation_size s * 2) (numa_node s)
                       (s\<lparr>prev_allocation_size := prev_allocation_size s * 2\<rparr>)
                     = Returns (True, t)))
          \<longrightarrow> (\<exists>a s'. alloc_page rs s = Returns (a, s')
                 \<and> length (page_freelist s') = 511))"
proof -
  let ?s0 = "s\<lparr>prev_allocation_size := prev_allocation_size s * 2\<rparr>"
  let ?res = "reserve_hugepages rs (prev_allocation_size s * 2) (numa_node s) ?s0"
  have inv: "allocator_inv s"
    using reachable_allocator_inv [OF assms(1,2)] by simp
  then have tot: "tot_free_hugepages s = sum_list (map free_hugepages (shm_list s))"
    by (simp add: allocator_inv_def)
  have scan: "\<exists>a s'. carve_scan (shm_list t) 0 t = Returns (a, s')
      \<and> length (page_freelist s') = length (page_freelist t) + 511"
    if "k < length (shm_list t)" "free_hugepages (shm_list t ! k) \<noteq> 0" for t k
    using carve_scan_finds [of 0 k t] that by simp
  have some: "\<exists>a s'. carve_scan (shm_list s) 0 s = Returns (a, s')
      \<and> length (page_freelist s') = length (page_freelist s) + 511"
    if "tot_free_hugepages s \<noteq> 0"
  proof -
    from that tot obtain k where "k < length (shm_list s)"
      "free_hugepages (shm_list s ! k) \<noteq> 0"
      using sum_list_nonzero [of free_hugepages "shm_list s"] by auto
    then show ?thesis by (rule scan)
  qed
  have grown: "\<exists>a s'. carve_scan (shm_list t) 0 t = Returns (a, s')
      \<and> length (page_freelist s') = length (page_freelist s) + 511"
    if "?res = Returns (True, t)" for t
  proof -
    from reserve_hugepages_True [OF that] obtain k buf where
      ka: "kernel_answer rs = Some (Shm_created buf 0)"
      and t: "t = with_region (fresh_region k buf (prev_allocation_size s * 2)) ?s0"
      by blast
    from ka have "creates_segment rs" by (simp add: creates_segment_def)
    with assms(3) have "round_up (prev_allocation_size s * 2) \<noteq> 0" by simp
    then have "free_hugepages (fresh_region k buf (prev_allocation_size s * 2)) \<noteq> 0"
      by (rule fresh_region_free)
    then have "free_hugepages (shm_list t ! length (shm_list s)) \<noteq> 0"
      and "length (shm_list s) < length (shm_list t)"
      by (simp_all add: t with_region_def)
    from scan [OF this(2,1)] show ?thesis
      by (simp add: t with_region_def)
  qed
  have no_exit: "alloc_page rs s \<noteq> Fatal Exit_alloc_page"
  proof (cases "page_freelist s = []")
    case False
    then show ?thesis by (simp add: alloc_page_def)
  next
    case True
    show ?thesis
    proof (cases "tot_free_hugepages s = 0")
      case False
      with some True show ?thesis by (auto simp: alloc_page_def)
    next
      case zero: True
      show ?thesis
      proof (cases ?res)
        case (Returns x)
        obtain ok t where x: "x = (ok, t)" by (cases x)
        show ?thesis
        proof (cases ok)
          case True
          with Returns x grown [of t] \<open>page_freelist s = []\<close> zero show ?thesis
            by (auto simp: alloc_page_def Let_def)
        next
          case False
          with Returns x \<open>page_freelist s = []\<close> zero show ?thesis
            by (simp add: alloc_page_def Let_def)
        qed
      next
        case (Fatal e)
        with reserve_hugepages_no_exit [of rs "prev_allocation_size s * 2" "numa_node s" ?s0]
          True zero show ?thesis
          by (simp add: alloc_page_def Let_def)
      next
        case Diverges
        with True zero show ?thesis by (simp add: alloc_page_def Let_def)
      qed
    qed
  qed
  have returns: "\<exists>a s'. alloc_page rs s = Returns (a, s') \<and> length (page_freelist s') = 511"
    if e: "page_freelist s = []"
      and d: "tot_free_hugepages s \<noteq> 0 \<or> (\<exists>t. ?res = Returns (True, t))"
  proof (cases "tot_free_hugepages s = 0")
    case False
    with some e show ?thesis by (auto simp: alloc_page_def)
  next
    case True
    with d obtain t where t: "?res = Returns (True, t)" by blast
    with grown [OF t] e True show ?thesis
      by (auto simp: alloc_page_def Let_def)
  qed
  from tot no_exit returns show ?thesis by blast
qed

theorem alloc_page_exit_unreachable_witness:
  "HugeAllocator_ctor 8 [(5, Shm_created 0x40000000 0)] 2097152 0 = Returns sample_start
   \<and> run [Alloc_huge [] 2097152] (sample_start, new_client)
       = Returns (sample_full, sample_full_client)
   \<and> creates_segment [(7, Shm_created 0x80000000 0)]
   \<and> round_up (prev_allocation_size sample_full * 2) \<noteq> 0
   \<and> page_freelist sample_full = [] \<and> tot_free_hugepages sample_full = 0
   \<and> reserve_hugepages [(7, Shm_created 0x80000000 0)]
         (prev_allocation_size sample_full * 2) (numa_node sample_full)
         (sample_full\<lparr>prev_allocation_size := prev_allocation_size sample_full * 2\<rparr>)
       = Returns (True,
           sample_full\<lparr>prev_allocation_size := 4194304,
             shm_list := shm_list sample_full
               @ [\<lparr>key = 7, base_buf = 0x80000000, size_r = 4194304,
                    cur_buf = 0x80000000, free_hugepages = 2\<rparr>],
             tot_free_hugepages := 2, tot_memory_reserved := 6291456\<rparr>)
   \<and> tot_free_hugepages sample_full
       = sum_list (map free_hugepages (shm_list sample_full))
   \<and> alloc_page [(7, Shm_created 0x80000000 0)] sample_full \<noteq> Fatal Exit_alloc_page
   \<and> (\<exists>a s'. alloc_page [(7, Shm_created 0x80000000 0)] sample_full = Returns (a, s')
          \<and> length (page_freelist s') = 511)"
proof -
  have k: "creates_segment [(7, Shm_created 0x80000000 0)]"
    "round_up (prev_allocation_size sample_full * 2) \<noteq> 0"
    by (simp_all add: creates_segment_def kernel_answer_def sample_full_def round_up_def
        kHugepageSize_def)
  have e: "page_freelist sample_full = []" "tot_free_hugepages sample_full = 0"
    by (simp_all add: sample_full_def)
  have g: "reserve_hugepages [(7, Shm_created 0x80000000 0)]
         (prev_allocation_size sample_full * 2) (numa_node sample_full)
         (sample_full\<lparr>prev_allocation_size := prev_allocation_size sample_full * 2\<rparr>)
       = Returns (True,
           sample_full\<lparr>prev_allocation_size := 4194304,
             shm_list := shm_list sample_full
               @ [\<lparr>key = 7, base_buf = 0x80000000, size_r = 4194304,
                    cur_buf = 0x80000000, free_hugepages = 2\<rparr>],
             tot_free_hugepages := 2, tot_memory_reserved := 6291456\<rparr>)"
    by (simp add: sample_full_def reserve_hugepages_def shm_region_t_def round_up_def
        kHugepageSize_def)
  from alloc_page_exit_unreachable [OF sample_ctor sample_run_full, of "[(7, Shm_created 0x80000000 0)]"]
    sample_ctor sample_run_full k e g
  show ?thesis by blast
qed

section \<open>The region reserved by \<open>alloc_huge\<close> holds the request\<close>

lemma unat_hugepages_needed:
  assumes "size0 \<le> kMaxAllocSize"
  shows "unat (round_up size0 div kHugepageSize) = (unat size0 + 2097151) div 2097152"
proof -
  have "unat size0 \<le> 2 ^ 38"
    using assms by (simp add: kMaxAllocSize_def word_le_nat_alt)
  then have "unat size0 + 2097151 < 2 ^ 64" by simp
  then have "unat (round_up size0) = (unat size0 + 2097151) div 2097152 * 2097152"
    by (simp add: unat_round_up)
  then show ?thesis
    by (simp add: unat_div unat_kHugepageSize)
qed

lemma grown_request_fits:
  assumes "request_shape p" and "round_up size0 \<le> p"
  shows "round_up size0 div kHugepageSize \<le> round_up p div kHugepageSize"
proof -
  have "unat (round_up size0) \<le> unat p"
    using assms(2) by (simp add: word_le_nat_alt)
  also have "\<dots> \<le> unat (round_up p)"
    using request_shape_bound [OF assms(1)] by (rule unat_round_up_ge(1))
  finally have "unat (round_up size0) div 2097152 \<le> unat (round_up p) div 2097152"
    by (rule div_le_mono)
  then show ?thesis
    by (simp add: word_le_nat_alt unat_div unat_kHugepageSize)
qed

text \<open>
  Claim C10. In every state that a constructed allocator reaches: when \<open>alloc_huge size\<close>
  (with \<open>H \<le> size \<le> 256 GiB\<close>) finds no region with enough free hugepages, its doubling
  loop ends with the request \<open>p\<close> and the reservation of \<open>p\<close> bytes succeeds, then the
  region appended last has at least \<open>ceil (size / H)\<close> free hugepages. So the assertion
  of \<open>pop_hugepages\<close> holds and \<open>alloc_huge\<close> returns the base of that region, whose
  count of free hugepages goes down by the hugepages requested without underflow.
\<close>

theorem grown_region_holds_request:
  assumes "HugeAllocator_ctor M rs0 initial_size numa = Returns s0"
    and "run cs (s0, new_client) = Returns (s, c)"
    and "kHugepageSize \<le> size0" and "size0 \<le> kMaxAllocSize"
    and "no_fit (round_up size0 div kHugepageSize) s"
    and "double_while (prev_allocation_size s * 2) (round_up size0) = Some p"
    and "reserve_hugepages rs p (numa_node s) (s\<lparr>prev_allocation_size := p\<rparr>)
           = Returns (True, t)"
  shows "length (shm_list t) = Suc (length (shm_list s))
       \<and> (unat size0 + 2097151) div 2097152 \<le> unat (free_hugepages (last (shm_list t)))
       \<and> round_up size0 div kHugepageSize \<le> free_hugepages (last (shm_list t))
       \<and> (\<exists>s'. alloc_huge rs size0 s = Returns (base_buf (last (shm_list t)), s')
              \<and> unat (free_hugepages (last (shm_list s')))
                  = unat (free_hugepages (last (shm_list t)))
                    - (unat size0 + 2097151) div 2097152)"
proof -
  define n where "n = round_up size0 div kHugepageSize"
  have inv: "allocator_inv s"
    using reachable_allocator_inv [OF assms(1,2)] by simp
  then have "request_shape (prev_allocation_size s * 2)"
    by (intro request_shape_double) (simp add: allocator_inv_def)
  from double_while_shape [OF assms(6) this]
  have shape: "request_shape p" and ge: "round_up size0 \<le> p" by simp_all
  from reserve_hugepages_True [OF assms(7)] obtain k buf where
    t: "t = with_region (fresh_region k buf p) (s\<lparr>prev_allocation_size := p\<rparr>)"
    by blast
  have len: "length (shm_list t) = Suc (length (shm_list s))"
    and last: "last (shm_list t) = fresh_region k buf p"
    and nth: "shm_list t ! length (shm_list s) = fresh_region k buf p"
    by (simp_all add: t with_region_def)
  have fit: "n \<le> free_hugepages (last (shm_list t))"
    using grown_request_fits [OF shape ge] by (simp add: last fresh_region_def n_def)
  have un: "unat n = (unat size0 + 2097151) div 2097152"
    unfolding n_def using assms(4) by (rule unat_hugepages_needed)
  have ceil: "(unat size0 + 2097151) div 2097152 \<le> unat (free_hugepages (last (shm_list t)))"
    using fit by (simp add: word_le_nat_alt un)
  have scan: "huge_scan (shm_list s) 0 n (round_up size0) s = None"
    using assms(5) by (simp add: huge_scan_None no_fit_def n_def)
  have pop: "pop_hugepages (length (shm_list s)) n t = Returns (pop_at (length (shm_list s)) n t)"
    using fit by (simp add: pop_hugepages_Returns nth last)
  let ?s' = "(pop_at (length (shm_list s)) n t)
      \<lparr>tot_memory_allocated := tot_memory_allocated (pop_at (length (shm_list s)) n t)
          + round_up size0\<rparr>"
  have ret: "alloc_huge rs size0 s = Returns (base_buf (last (shm_list t)), ?s')"
    unfolding alloc_huge_def Let_def
    using assms(3,4,6,7) scan pop
    by (simp add: n_def [symmetric] len nth last fresh_region_def)
  have "last (shm_list ?s') = popped n (fresh_region k buf p)"
    by (simp add: pop_at_def t with_region_def)
  then have "unat (free_hugepages (last (shm_list ?s')))
      = unat (free_hugepages (last (shm_list t))) - unat n"
    using fit by (simp add: popped_def last unat_free_minus)
  with ret len ceil fit show ?thesis
    unfolding un n_def [symmetric] by blast
qed

theorem grown_region_holds_request_witness:
  "HugeAllocator_ctor 8 [(5, Shm_created 0x40000000 0)] 2097152 0 = Returns sample_start
   \<and> run sample_pages (sample_start, new_client) = Returns (sample_mid, sample_mid_client)
   \<and> kHugepageSize \<le> 3145728 \<and> (3145728 :: size_t) \<le> kMaxAllocSize
   \<and> no_fit (round_up 3145728 div kHugepageSize) sample_mid
   \<and> double_while (prev_allocation_size sample_mid * 2) (round_up 3145728) = Some 4194304
   \<and> reserve_hugepages [(9, EEXIST), (7, Shm_created 0x80000000 0)] 4194304
         (numa_node sample_mid) (sample_mid\<lparr>prev_allocation_size := 4194304\<rparr>)
       = Returns (True,
           sample_mid\<lparr>prev_allocation_size := 4194304,
             shm_list := shm_list sample_mid
               @ [\<lparr>key = 7, base_buf = 0x80000000, size_r = 4194304,
                    cur_buf = 0x80000000, free_hugepages = 2\<rparr>],
             tot_free_hugepages := 2, tot_memory_reserved := 6291456\<rparr>)
   \<and> (\<exists>s'. alloc_huge [(9, EEXIST), (7, Shm_created 0x80000000 0)] 3145728 sample_mid
              = Returns (0x80000000, s')
          \<and> unat (free_hugepages (last (shm_list s'))) = 0)"
proof -
  let ?t = "sample_mid\<lparr>prev_allocation_size := 4194304,
             shm_list := shm_list sample_mid
               @ [\<lparr>key = 7, base_buf = 0x80000000, size_r = 4194304,
                    cur_buf = 0x80000000, free_hugepages = 2\<rparr>],
             tot_free_hugepages := 2, tot_memory_reserved := 6291456\<rparr>"
  have h: "kHugepageSize \<le> 3145728" "(3145728 :: size_t) \<le> kMaxAllocSize"
    "no_fit (round_up 3145728 div kHugepageSize) sample_mid"
    "double_while (prev_allocation_size sample_mid * 2) (round_up 3145728) = Some 4194304"
    by (simp_all add: kHugepageSize_def kMaxAllocSize_def no_fit_def sample_mid_def
        round_up_def double_while.simps)
  have g: "reserve_hugepages [(9, EEXIST), (7, Shm_created 0x80000000 0)] 4194304
         (numa_node sample_mid) (sample_mid\<lparr>prev_allocation_size := 4194304\<rparr>)
       = Returns (True, ?t)"
    by (simp add: sample_mid_def reserve_hugepages_def shm_region_t_def round_up_def
        kHugepageSize_def)
  have v: "base_buf (last (shm_list ?t)) = 0x80000000"
    "unat (free_hugepages (last (shm_list ?t))) - (unat (3145728 :: size_t) + 2097151) div 2097152 = 0"
    by simp_all
  from grown_region_holds_request [OF sample_ctor sample_run_pages h g]
  have "\<exists>s'. alloc_huge [(9, EEXIST), (7, Shm_created 0x80000000 0)] 3145728 sample_mid
              = Returns (0x80000000, s')
          \<and> unat (free_hugepages (last (shm_list s'))) = 0"
    unfolding v by blast
  with sample_ctor sample_run_pages h g show ?thesis
    by (intro conjI)
qed

end
